theory Spec2Isabelle
  imports Complex_Main
begin

section \<open>TypedStorage: a typed, prefixed, collision-checked wrapper over a string store\<close>

text \<open>
  The development embeds \<^verbatim>\<open>src/main.ts\<close>. JavaScript objects that the code walks with
  \<^verbatim>\<open>Object.keys\<close> (the record of converters, the body given to \<^verbatim>\<open>setDefaults\<close>) are
  association lists in \<^verbatim>\<open>Object.keys\<close> order; an object has every key once, which the
  theorems state as \<open>distinct (map fst _)\<close>. Strings are HOL strings and \<^verbatim>\<open>+\<close> on them is
  \<open>@\<close>. The value \<^verbatim>\<open>null\<close> is \<open>None\<close>. A thrown exception is the \<open>Inl\<close> of a result, and
  every function that touches the module's registry or a host \<^verbatim>\<open>Storage\<close> object takes the
  world and returns it: an exception leaves the world as it is when it is thrown.
\<close>

subsection \<open>The host: Storage objects\<close>

text \<open>
  A \<^verbatim>\<open>Storage\<close> object is known to the code by its identity only. The two the code names
  are \<^verbatim>\<open>localStorage\<close> and \<^verbatim>\<open>sessionStorage\<close>; any other object with the interface is
  \<open>otherStorage n\<close>.
\<close>

datatype storage = localStorage | sessionStorage | otherStorage nat

datatype error = TypeError string | Error string | RangeError string | QuotaExceededError

text \<open>The calls the code makes on a \<^verbatim>\<open>Storage\<close> object, as the host sees them.\<close>

datatype call = CallGetItem string | CallSetItem string string | CallRemoveItem string

text \<open>
  The world: what every \<^verbatim>\<open>Storage\<close> object holds (\<open>contents\<close>), the host's decision
  to refuse a write (\<open>refuses\<close>: the store, what it holds, the key and the value; the host
  throws a \<^verbatim>\<open>QuotaExceededError\<close> then and stores nothing), the calls made on the
  \<^verbatim>\<open>Storage\<close> objects so far, oldest first (\<open>calls\<close>), and the module's variable
  \<^verbatim>\<open>takenKeys\<close>, a \<^verbatim>\<open>Map<Storage, Set<string>>\<close>.
\<close>

record world =
  contents :: "storage \<Rightarrow> (string \<rightharpoonup> string)"
  refuses :: "storage \<Rightarrow> (string \<rightharpoonup> string) \<Rightarrow> string \<Rightarrow> string \<Rightarrow> bool"
  calls :: "(storage \<times> call) list"
  takenKeys :: "storage \<rightharpoonup> string set"

text \<open>
  The three methods of the host's \<^verbatim>\<open>Storage\<close> that the code calls. They are the host's,
  not the repository's: \<^verbatim>\<open>getItem\<close> gives the string at the key or \<^verbatim>\<open>null\<close>,
  \<^verbatim>\<open>setItem\<close> stores the string or throws, \<^verbatim>\<open>removeItem\<close> deletes the key if it is there.
\<close>

definition Storage_getItem :: "storage \<Rightarrow> string \<Rightarrow> world \<Rightarrow> string option \<times> world" where
  "Storage_getItem s k w = (contents w s k, w\<lparr>calls := calls w @ [(s, CallGetItem k)]\<rparr>)"

definition Storage_setItem :: "storage \<Rightarrow> string \<Rightarrow> string \<Rightarrow> world \<Rightarrow> (error + unit) \<times> world" where
  "Storage_setItem s k v w =
     (if refuses w s (contents w s) k v
      then (Inl QuotaExceededError, w\<lparr>calls := calls w @ [(s, CallSetItem k v)]\<rparr>)
      else (Inr (), w\<lparr>contents := (contents w)(s := (contents w s)(k \<mapsto> v)),
                       calls := calls w @ [(s, CallSetItem k v)]\<rparr>))"

definition Storage_removeItem :: "storage \<Rightarrow> string \<Rightarrow> world \<Rightarrow> world" where
  "Storage_removeItem s k w =
     w\<lparr>contents := (contents w)(s := (contents w s)(k := None)),
       calls := calls w @ [(s, CallRemoveItem k)]\<rparr>"

subsection \<open>Converters\<close>

text \<open>
  A converter is a pair of functions. They are total here: the repository's README asks
  that a converter never throws, and \<^verbatim>\<open>parse\<close> returns \<^verbatim>\<open>null\<close> for what it cannot
  read. The record of converters of an instance has one value type \<open>'v\<close>; a schema with
  fields of several types takes their sum for it.
\<close>

record 'v Converter =
  parse :: "string \<Rightarrow> 'v option"
  stringify :: "'v \<Rightarrow> string"

type_synonym 'v Converters = "(string \<times> 'v Converter) list"

subsection \<open>The key registry\<close>

text \<open>
  \<^verbatim>\<open>getTakenKey\<close> returns the set registered for the store, and registers a new empty set
  first when the store has none.
\<close>

definition getTakenKey :: "storage \<Rightarrow> world \<Rightarrow> string set \<times> world" where
  "getTakenKey s w =
     (case takenKeys w s of
        Some taken \<Rightarrow> (taken, w)
      | None \<Rightarrow> ({}, w\<lparr>takenKeys := (takenKeys w)(s \<mapsto> {})\<rparr>))"

fun getStorageName :: "storage \<Rightarrow> string" where
  "getStorageName localStorage = ''localStorage''"
| "getStorageName sessionStorage = ''sessionStorage''"
| "getStorageName (otherStorage n) = ''<unknown Storage>''"

text \<open>The keys a store has claimed: the empty set when the registry has no entry for it.\<close>

definition claimed :: "world \<Rightarrow> storage \<Rightarrow> string set" where
  "claimed w s = (case takenKeys w s of Some taken \<Rightarrow> taken | None \<Rightarrow> {})"

subsection \<open>The class TypedStorage\<close>

record 'v TypedStorage =
  storage :: storage
  prefix :: string
  converters :: "'v Converters"

text \<open>
  The loop of the constructor over \<^verbatim>\<open>Object.keys(converters)\<close>. \<open>takenField\<close> is the
  \<^verbatim>\<open>Set\<close> object that \<^verbatim>\<open>getTakenKey\<close> returned: the registry holds the same object, so
  \<^verbatim>\<open>takenField.add\<close> changes the registry's entry of the store at once.
\<close>

definition takenMessage :: "storage \<Rightarrow> string \<Rightarrow> string" where
  "takenMessage s storeKey =
     ''the key \"'' @ storeKey @ ''\" from '' @ getStorageName s @ '' is already taken.''"

fun constructor_loop ::
  "storage \<Rightarrow> string \<Rightarrow> string list \<Rightarrow> string set \<Rightarrow> world \<Rightarrow> (error + unit) \<times> world" where
  "constructor_loop s p [] takenField w = (Inr (), w)"
| "constructor_loop s p (key # keys) takenField w =
     (let storeKey = p @ key in
      if storeKey \<in> takenField then (Inl (Error (takenMessage s storeKey)), w)
      else constructor_loop s p keys (insert storeKey takenField)
             (w\<lparr>takenKeys := (takenKeys w)(s \<mapsto> insert storeKey takenField)\<rparr>))"

text \<open>
  The constructor, with the signature of its implementation: the second argument is the
  prefix (\<open>Inl\<close>) or, in the overload without a prefix, the converters (\<open>Inr\<close>); the third
  is the converters or \<^verbatim>\<open>undefined\<close> (\<open>None\<close>). \<open>normalizeArgs\<close> is its first
  statement: when the second argument is not a string, the prefix is the empty string and
  the converters are the second argument. The two overloads the class declares are
  \<open>constructor s (Inr c) None\<close> and \<open>constructor s (Inl p) (Some c)\<close>.
\<close>

definition normalizeArgs ::
  "string + 'v Converters \<Rightarrow> 'v Converters option \<Rightarrow> string \<times> 'v Converters option" where
  "normalizeArgs prefixArg convertersArg =
     (case prefixArg of Inl str \<Rightarrow> (str, convertersArg) | Inr c \<Rightarrow> ('''', Some c))"

definition constructor ::
  "storage \<Rightarrow> string + 'v Converters \<Rightarrow> 'v Converters option \<Rightarrow> world
     \<Rightarrow> (error + 'v TypedStorage) \<times> world" where
  "constructor s prefixArg convertersArg w =
     (let (p, cs) = normalizeArgs prefixArg convertersArg in
      case cs of
        None \<Rightarrow> (Inl (TypeError ''converters not defined (this should be unreachable)''), w)
      | Some c \<Rightarrow>
          (let (takenField, w1) = getTakenKey s w in
           case constructor_loop s p (map fst c) takenField w1 of
             (Inl e, w2) \<Rightarrow> (Inl e, w2)
           | (Inr u, w2) \<Rightarrow> (Inr \<lparr>storage = s, prefix = p, converters = c\<rparr>, w2)))"

text \<open>
  The methods. \<^verbatim>\<open>this.converters[key]\<close> of a key the record of converters does not have
  is \<^verbatim>\<open>undefined\<close>, and calling \<^verbatim>\<open>parse\<close> or \<^verbatim>\<open>stringify\<close> on it throws a
  \<^verbatim>\<open>TypeError\<close>; the types of the class exclude such a key.
\<close>

definition noConverter :: error where
  "noConverter = TypeError ''Cannot read properties of undefined''"

definition getItem :: "'v TypedStorage \<Rightarrow> string \<Rightarrow> world \<Rightarrow> (error + 'v option) \<times> world" where
  "getItem this key w =
     (let (item, w1) = Storage_getItem (storage this) (prefix this @ key) w in
      case item of
        None \<Rightarrow> (Inr None, w1)
      | Some str \<Rightarrow>
          (case map_of (converters this) key of
             None \<Rightarrow> (Inl noConverter, w1)
           | Some c \<Rightarrow> (Inr (parse c str), w1)))"

definition hasItem :: "'v TypedStorage \<Rightarrow> string \<Rightarrow> world \<Rightarrow> (error + bool) \<times> world" where
  "hasItem this key w =
     (case getItem this key w of
        (Inl e, w1) \<Rightarrow> (Inl e, w1)
      | (Inr r, w1) \<Rightarrow> (Inr (r \<noteq> None), w1))"

definition setItem :: "'v TypedStorage \<Rightarrow> string \<Rightarrow> 'v \<Rightarrow> world \<Rightarrow> (error + unit) \<times> world" where
  "setItem this key v w =
     (case map_of (converters this) key of
        None \<Rightarrow> (Inl noConverter, w)
      | Some c \<Rightarrow> Storage_setItem (storage this) (prefix this @ key) (stringify c v) w)"

definition removeItem :: "'v TypedStorage \<Rightarrow> string \<Rightarrow> world \<Rightarrow> world" where
  "removeItem this key w = Storage_removeItem (storage this) (prefix this @ key) w"

text \<open>
  \<^verbatim>\<open>setDefaults\<close> walks \<^verbatim>\<open>Object.keys(body)\<close> and reads \<^verbatim>\<open>body[key]\<close>: the body is
  the list of its keys with their values, in that order. An exception of \<^verbatim>\<open>hasItem\<close> or
  \<^verbatim>\<open>setItem\<close> ends the loop.
\<close>

fun setDefaults :: "'v TypedStorage \<Rightarrow> (string \<times> 'v) list \<Rightarrow> world \<Rightarrow> (error + unit) \<times> world" where
  "setDefaults this [] w = (Inr (), w)"
| "setDefaults this ((key, v) # body) w =
     (case hasItem this key w of
        (Inl e, w1) \<Rightarrow> (Inl e, w1)
      | (Inr True, w1) \<Rightarrow> setDefaults this body w1
      | (Inr False, w1) \<Rightarrow>
          (case setItem this key v w1 of
             (Inl e, w2) \<Rightarrow> (Inl e, w2)
           | (Inr u, w2) \<Rightarrow> setDefaults this body w2))"

subsection \<open>The built-in converters\<close>

definition booleanConverter :: "bool Converter" where
  "booleanConverter =
     \<lparr>parse = (\<lambda>str. if str = ''0'' then Some False else if str = ''1'' then Some True else None),
      stringify = (\<lambda>b. case b of False \<Rightarrow> ''0'' | True \<Rightarrow> ''1'')\<rparr>"

definition stringConverter :: "string Converter" where
  "stringConverter = \<lparr>parse = (\<lambda>str. Some str), stringify = (\<lambda>str. str)\<rparr>"

definition enumConverterFactory :: "string list \<Rightarrow> string Converter" where
  "enumConverterFactory enumTuple =
     \<lparr>parse = (\<lambda>str. if str \<in> set enumTuple then Some str else None),
      stringify = (\<lambda>str. str)\<rparr>"

text \<open>
  The host's type \<^verbatim>\<open>number\<close>: \<^verbatim>\<open>NaN\<close>, the two infinities, and the finite numbers.
  A finite number is \<open>Finite q\<close>, with the rational \<open>q\<close> its value; \<^verbatim>\<open>-0\<close> is \<open>Finite 0\<close>
  as \<^verbatim>\<open>+0\<close> is (the host prints both as \<^verbatim>\<open>"0"\<close>, and \<^verbatim>\<open>==\<close> holds between them).
  The finite numbers are the values of the binary64 format: the multiples \<open>m * 2 ^ e\<close>
  with \<open>m\<close> below \<open>2 ^ 53\<close> in magnitude and \<open>e\<close> from \<open>-1074\<close> to \<open>971\<close>.

  \<open>NumberValueFor\<close> is the language standard's \<^emph>\<open>Number value for\<close> a real: the number
  nearest to it, the one of even significand when two are as near, and an infinity when
  the rounded magnitude reaches \<open>2 ^ 1024\<close>. \<open>floorLog2 a\<close> is the \<open>L\<close> with
  \<open>2 ^ L \<le> a < 2 ^ (L + 1)\<close>, found from the bit lengths of the numerator and the
  denominator, and the significand is rounded at the exponent \<open>L - 52\<close>, or at \<open>-1074\<close>
  for the subnormal numbers. \<open>isNumber\<close> holds of the values of the type: of the finite
  ones, those that \<open>NumberValueFor\<close> leaves as they are.
\<close>

datatype number = NaN | PosInfinity | NegInfinity | Finite rat

definition Number_isNaN :: "number \<Rightarrow> bool" where
  "Number_isNaN x = (x = NaN)"

function bitLength :: "int \<Rightarrow> nat" where
  "bitLength i = (if i \<le> 0 then 0 else Suc (bitLength (i div 2)))"
  by pat_completeness auto
termination
  by (relation "measure nat") auto

declare bitLength.simps [simp del]

definition floorLog2 :: "rat \<Rightarrow> int" where
  "floorLog2 q =
     (let (p, d) = quotient_of q; c = int (bitLength p) - int (bitLength d)
      in if 2 powi c \<le> q then c else c - 1)"

definition roundHalfEven :: "rat \<Rightarrow> int" where
  "roundHalfEven q =
     (let f = \<lfloor>q\<rfloor>; r = q - of_int f
      in if r < 1 / 2 then f else if 1 / 2 < r then f + 1 else if even f then f else f + 1)"

definition roundMagnitude :: "rat \<Rightarrow> rat" where
  "roundMagnitude a =
     (let e = max (floorLog2 a - 52) (- 1074)
      in of_int (roundHalfEven (a / 2 powi e)) * 2 powi e)"

definition NumberValueFor :: "rat \<Rightarrow> number" where
  "NumberValueFor q =
     (if q = 0 then Finite 0
      else let r = roundMagnitude \<bar>q\<bar>
           in if of_int (2 ^ 1024) \<le> r then (if q < 0 then NegInfinity else PosInfinity)
              else Finite (if q < 0 then - r else r))"

definition isNumber :: "number \<Rightarrow> bool" where
  "isNumber x = (case x of Finite q \<Rightarrow> NumberValueFor q = Finite q | _ \<Rightarrow> True)"

text \<open>\<^verbatim>\<open>Number.isSafeInteger\<close>.\<close>

definition isSafeInteger :: "number \<Rightarrow> bool" where
  "isSafeInteger x =
     (case x of Finite q \<Rightarrow> q = of_int \<lfloor>q\<rfloor> \<and> \<bar>q\<bar> \<le> 9007199254740991 | _ \<Rightarrow> False)"

definition digitChar :: "nat \<Rightarrow> char" where
  "digitChar d = ''0123456789'' ! d"

definition isDigit :: "char \<Rightarrow> bool" where
  "isDigit c = (c \<in> set ''0123456789'')"

definition digitValue :: "char \<Rightarrow> nat" where
  "digitValue c = of_char c - 48"

function decimal :: "nat \<Rightarrow> string" where
  "decimal n = (if n < 10 then [digitChar n] else decimal (n div 10) @ [digitChar (n mod 10)])"
  by pat_completeness auto
termination
  by (relation "measure id") auto

declare decimal.simps [simp del]

text \<open>
  \<^verbatim>\<open>Number.prototype.toString\<close> with no radix. For a positive number \<open>x\<close> the standard takes
  integers \<open>n\<close>, \<open>k\<close> and \<open>s\<close> with \<open>k \<ge> 1\<close>, \<open>10 ^ (k - 1) \<le> s < 10 ^ k\<close>, the Number
  value for \<open>s * 10 ^ (n - k)\<close> being \<open>x\<close>, and \<open>k\<close> as small as possible (\<open>validDigits\<close> is
  this without the last part); of several \<open>s\<close> it recommends the one that gives the value
  nearest to \<open>x\<close>, and the even one of two. \<open>digitsOf\<close> computes them: \<open>decimalExponent x\<close>
  is the \<open>n\<close> with \<open>10 ^ (n - 1) \<le> x < 10 ^ n\<close>, and for \<open>k = 1, 2, \<dots>\<close> \<open>candidate\<close> tries
  the two decimals of \<open>k\<close> digits around \<open>x\<close>. The searches carry fuel, which a number never
  uses up (lemmas \<open>decimalExponent_correct\<close> and \<open>digitsOf_valid\<close>). \<open>formatDigits\<close> writes
  the digits: as an integer, with a decimal point, with leading zeros, or with an
  exponent when \<open>n\<close> is below \<open>-5\<close> or above \<open>21\<close>.
\<close>

fun scaleDown :: "rat \<Rightarrow> int \<Rightarrow> nat \<Rightarrow> int" where
  "scaleDown x n fuel =
     (if fuel = 0 \<or> 10 powi (n - 1) \<le> x then n else scaleDown x (n - 1) (fuel - 1))"

fun scaleUp :: "rat \<Rightarrow> int \<Rightarrow> nat \<Rightarrow> int" where
  "scaleUp x n fuel =
     (if fuel = 0 \<or> x < 10 powi n then n else scaleUp x (n + 1) (fuel - 1))"

declare scaleDown.simps [simp del] scaleUp.simps [simp del]

definition decimalExponent :: "rat \<Rightarrow> int" where
  "decimalExponent x = (if x < 1 then scaleDown x 0 1100 else scaleUp x 1 1100)"

definition candidate :: "rat \<Rightarrow> int \<Rightarrow> nat \<Rightarrow> (int \<times> nat \<times> int) option" where
  "candidate x n k =
     (let scale = 10 powi (n - int k);
          lo = \<lfloor>x / scale\<rfloor>; hi = lo + 1;
          vlo = of_int lo * scale; vhi = of_int hi * scale;
          okLo = (NumberValueFor vlo = Finite x);
          okHi = (NumberValueFor vhi = Finite x);
          useHi = (okHi \<and> (\<not> okLo \<or> vhi - x < x - vlo \<or> (vhi - x = x - vlo \<and> even hi)))
      in if useHi then Some (if hi = 10 ^ k then (n + 1, k, 10 ^ (k - 1)) else (n, k, hi))
         else if okLo then Some (n, k, lo) else None)"

fun shortest :: "rat \<Rightarrow> int \<Rightarrow> nat \<Rightarrow> nat \<Rightarrow> int \<times> nat \<times> int" where
  "shortest x n k fuel =
     (if fuel = 0 then (n, k, \<lfloor>x / 10 powi (n - int k)\<rfloor>)
      else case candidate x n k of
             Some r \<Rightarrow> r
           | None \<Rightarrow> shortest x n (k + 1) (fuel - 1))"

declare shortest.simps [simp del]

definition digitsOf :: "rat \<Rightarrow> int \<times> nat \<times> int" where
  "digitsOf x = (let n = decimalExponent x in shortest x n 1 (nat (n + 1074)))"

definition validDigits :: "rat \<Rightarrow> int \<times> nat \<times> int \<Rightarrow> bool" where
  "validDigits x r =
     (case r of (n, k, s) \<Rightarrow>
        1 \<le> k \<and> 10 ^ (k - 1) \<le> s \<and> s < 10 ^ k \<and>
        NumberValueFor (of_int s * 10 powi (n - int k)) = Finite x)"

definition formatDigits :: "int \<Rightarrow> nat \<Rightarrow> int \<Rightarrow> string" where
  "formatDigits n k s =
     (let ds = decimal (nat s) in
      if - 5 \<le> n \<and> n \<le> 21 then
        (if int k \<le> n then ds @ replicate (nat (n - int k)) (CHR ''0'')
         else if 0 < n then take (nat n) ds @ ''.'' @ drop (nat n) ds
         else ''0.'' @ replicate (nat (- n)) (CHR ''0'') @ ds)
      else
        (if k = 1 then ds else [hd ds] @ ''.'' @ tl ds) @ ''e'' @
        (if n < 0 then ''-'' else ''+'') @ decimal (nat \<bar>n - 1\<bar>))"

definition Number_toString :: "number \<Rightarrow> string" where
  "Number_toString x =
     (case x of
        NaN \<Rightarrow> ''NaN''
      | PosInfinity \<Rightarrow> ''Infinity''
      | NegInfinity \<Rightarrow> ''-Infinity''
      | Finite q \<Rightarrow>
          if q = 0 then ''0''
          else (if q < 0 then ''-'' else []) @
               (case digitsOf \<bar>q\<bar> of (n, k, s) \<Rightarrow> formatDigits n k s))"

text \<open>
  \<^verbatim>\<open>Number.parseInt(string, 10)\<close>: white space at the start is dropped (in the characters
  of a HOL string: tab, line feed, vertical tab, form feed, carriage return, space and the
  no-break space), then one sign is read, then the longest run of decimal digits; with no
  digit the result is \<^verbatim>\<open>NaN\<close>, and whatever follows the digits is ignored. The result is
  the Number value for the integer read. (The standard lets an implementation take the
  digits after the twentieth for zeros; the integer is rounded as it is here.)
\<close>

definition isWhiteSpace :: "char \<Rightarrow> bool" where
  "isWhiteSpace c = (of_char c \<in> {9, 10, 11, 12, 13, 32, 160 :: nat})"

definition digitsValue :: "string \<Rightarrow> nat" where
  "digitsValue Z = foldl (\<lambda>a c. 10 * a + digitValue c) 0 Z"

definition parseInt10 :: "string \<Rightarrow> number" where
  "parseInt10 inputString =
     (let S = dropWhile isWhiteSpace inputString;
          sign = (if S \<noteq> [] \<and> hd S = CHR ''-'' then - 1 else 1);
          S1 = (if S \<noteq> [] \<and> (hd S = CHR ''+'' \<or> hd S = CHR ''-'') then tl S else S);
          Z = takeWhile isDigit S1
      in if Z = [] then NaN else NumberValueFor (sign * of_nat (digitsValue Z)))"

definition intConverter :: "number Converter" where
  "intConverter =
     \<lparr>parse = (\<lambda>str. let num = parseInt10 str in if Number_isNaN num then None else Some num),
      stringify = (\<lambda>x. Number_toString x)\<rparr>"

text \<open>
  \<^verbatim>\<open>Number.parseFloat(string)\<close>: white space at the start is dropped, and the longest
  prefix that is a decimal literal of the standard's string grammar is read: a sign, then
  \<^verbatim>\<open>Infinity\<close>, or digits with a fraction or without, or a fraction alone, and then an
  exponent if its digits are there. With no such prefix the result is \<^verbatim>\<open>NaN\<close>, otherwise
  the Number value for the value of the literal. (Here too the standard lets an
  implementation take the digits after the twentieth for zeros, and the value is rounded
  as it is.)
\<close>

definition exponentPart :: "string \<Rightarrow> int" where
  "exponentPart r =
     (if r \<noteq> [] \<and> (hd r = CHR ''e'' \<or> hd r = CHR ''E'') then
        (let r1 = tl r;
             r2 = (if r1 \<noteq> [] \<and> (hd r1 = CHR ''+'' \<or> hd r1 = CHR ''-'') then tl r1 else r1);
             E = takeWhile isDigit r2
         in if E = [] then 0
            else if r1 \<noteq> [] \<and> hd r1 = CHR ''-'' then - int (digitsValue E)
            else int (digitsValue E))
      else 0)"

definition unsignedDecimal :: "string \<Rightarrow> rat option" where
  "unsignedDecimal S =
     (let I = takeWhile isDigit S; r = dropWhile isDigit S in
      if r \<noteq> [] \<and> hd r = CHR ''.'' then
        (let F = takeWhile isDigit (tl r); r1 = dropWhile isDigit (tl r) in
         if I = [] \<and> F = [] then None
         else Some ((of_nat (digitsValue I) + of_nat (digitsValue F) / 10 ^ length F) *
                    10 powi exponentPart r1))
      else if I = [] then None
      else Some (of_nat (digitsValue I) * 10 powi exponentPart r))"

definition parseFloat :: "string \<Rightarrow> number" where
  "parseFloat inputString =
     (let S = dropWhile isWhiteSpace inputString;
          negative = (S \<noteq> [] \<and> hd S = CHR ''-'');
          S1 = (if S \<noteq> [] \<and> (hd S = CHR ''+'' \<or> hd S = CHR ''-'') then tl S else S)
      in if take 8 S1 = ''Infinity'' then (if negative then NegInfinity else PosInfinity)
         else case unsignedDecimal S1 of
                None \<Rightarrow> NaN
              | Some mv \<Rightarrow> NumberValueFor (if negative then - mv else mv))"

definition floatConverter :: "number Converter" where
  "floatConverter =
     \<lparr>parse = (\<lambda>str. let num = parseFloat str in if Number_isNaN num then None else Some num),
      stringify = (\<lambda>x. Number_toString x)\<rparr>"

subsection \<open>The host: Date objects and the ISO date converter\<close>

text \<open>
  A \<^verbatim>\<open>Date\<close> object holds a time value: \<^verbatim>\<open>NaN\<close> (\<open>InvalidDate\<close>) or a whole number of
  milliseconds from the epoch, of magnitude at most \<^verbatim>\<open>8.64e15\<close> (\<open>TimeValue t\<close>; all these
  integers are numbers of the host, exactly). Two \<^verbatim>\<open>Date\<close> objects are taken as equal when
  their time values are.

  The functions below are those of the language standard's section on \<^verbatim>\<open>Date\<close> objects,
  under its names. Two are given there by a property and here by a computation:
  \<open>YearFromTime\<close> (the largest year that starts at or before the time; lemma
  \<open>YearFromTime_largest\<close>) and \<open>MakeDay\<close> (the day number of the first of the month, found
  by its year, month and date, plus the date; lemma \<open>MakeDay_finds\<close>).
\<close>

datatype Date = InvalidDate | TimeValue int

definition msPerDay :: int where
  "msPerDay = 86400000"

definition Day :: "int \<Rightarrow> int" where
  "Day t = t div msPerDay"

definition TimeWithinDay :: "int \<Rightarrow> int" where
  "TimeWithinDay t = t mod msPerDay"

definition DaysInYear :: "int \<Rightarrow> int" where
  "DaysInYear y =
     (if y mod 4 \<noteq> 0 then 365 else if y mod 100 \<noteq> 0 then 366
      else if y mod 400 \<noteq> 0 then 365 else 366)"

definition DayFromYear :: "int \<Rightarrow> int" where
  "DayFromYear y =
     365 * (y - 1970) + (y - 1969) div 4 - (y - 1901) div 100 + (y - 1601) div 400"

definition TimeFromYear :: "int \<Rightarrow> int" where
  "TimeFromYear y = msPerDay * DayFromYear y"

definition YearFromTime :: "int \<Rightarrow> int" where
  "YearFromTime t =
     (let d = Day t; y0 = 1970 + (400 * d) div 146097 in
      if d < DayFromYear y0 then y0 - 1
      else if DayFromYear (y0 + 1) \<le> d then y0 + 1 else y0)"

definition InLeapYear :: "int \<Rightarrow> int" where
  "InLeapYear t = (if DaysInYear (YearFromTime t) = 365 then 0 else 1)"

definition DayWithinYear :: "int \<Rightarrow> int" where
  "DayWithinYear t = Day t - DayFromYear (YearFromTime t)"

definition MonthFromTime :: "int \<Rightarrow> int" where
  "MonthFromTime t =
     (let d = DayWithinYear t; l = InLeapYear t in
      if d < 31 then 0 else if d < 59 + l then 1 else if d < 90 + l then 2
      else if d < 120 + l then 3 else if d < 151 + l then 4 else if d < 181 + l then 5
      else if d < 212 + l then 6 else if d < 243 + l then 7 else if d < 273 + l then 8
      else if d < 304 + l then 9 else if d < 334 + l then 10 else 11)"

definition DateFromTime :: "int \<Rightarrow> int" where
  "DateFromTime t =
     (let d = DayWithinYear t; l = InLeapYear t; m = MonthFromTime t in
      if m = 0 then d + 1 else if m = 1 then d - 30 else if m = 2 then d - 58 - l
      else if m = 3 then d - 89 - l else if m = 4 then d - 119 - l
      else if m = 5 then d - 150 - l else if m = 6 then d - 180 - l
      else if m = 7 then d - 211 - l else if m = 8 then d - 242 - l
      else if m = 9 then d - 272 - l else if m = 10 then d - 303 - l else d - 333 - l)"

definition HourFromTime :: "int \<Rightarrow> int" where
  "HourFromTime t = (t div 3600000) mod 24"

definition MinFromTime :: "int \<Rightarrow> int" where
  "MinFromTime t = (t div 60000) mod 60"

definition SecFromTime :: "int \<Rightarrow> int" where
  "SecFromTime t = (t div 1000) mod 60"

definition msFromTime :: "int \<Rightarrow> int" where
  "msFromTime t = t mod 1000"

definition MakeTime :: "int \<Rightarrow> int \<Rightarrow> int \<Rightarrow> int \<Rightarrow> int" where
  "MakeTime hour minute sec ms = hour * 3600000 + minute * 60000 + sec * 1000 + ms"

definition monthStart :: "int \<Rightarrow> int \<Rightarrow> int" where
  "monthStart mn l =
     (if mn = 0 then 0 else if mn = 1 then 31 else if mn = 2 then 59 + l
      else if mn = 3 then 90 + l else if mn = 4 then 120 + l else if mn = 5 then 151 + l
      else if mn = 6 then 181 + l else if mn = 7 then 212 + l else if mn = 8 then 243 + l
      else if mn = 9 then 273 + l else if mn = 10 then 304 + l else if mn = 11 then 334 + l
      else 365 + l)"

definition MakeDay :: "int \<Rightarrow> int \<Rightarrow> int \<Rightarrow> int" where
  "MakeDay year month date =
     (let ym = year + month div 12; mn = month mod 12;
          l = (if DaysInYear ym = 365 then 0 else 1)
      in DayFromYear ym + monthStart mn l + date - 1)"

definition MakeDate :: "int \<Rightarrow> int \<Rightarrow> int" where
  "MakeDate day time = day * msPerDay + time"

definition TimeClip :: "int \<Rightarrow> int option" where
  "TimeClip time = (if \<bar>time\<bar> > 8640000000000000 then None else Some time)"

text \<open>
  \<^verbatim>\<open>Date.prototype.toISOString\<close>: a \<^verbatim>\<open>RangeError\<close> for an invalid date, otherwise the
  year (four digits from 0 to 9999, else a sign and six digits), month, day, \<^verbatim>\<open>T\<close>, hour,
  minute, second, milliseconds and \<^verbatim>\<open>Z\<close>.
\<close>

definition ToZeroPaddedDecimalString :: "nat \<Rightarrow> nat \<Rightarrow> string" where
  "ToZeroPaddedDecimalString n minLength =
     replicate (minLength - length (decimal n)) (CHR ''0'') @ decimal n"

definition yearString :: "int \<Rightarrow> string" where
  "yearString yv =
     (if 0 \<le> yv \<and> yv \<le> 9999 then ToZeroPaddedDecimalString (nat yv) 4
      else (if 0 \<le> yv then ''+'' else ''-'') @ ToZeroPaddedDecimalString (nat \<bar>yv\<bar>) 6)"

definition toISOString :: "Date \<Rightarrow> error + string" where
  "toISOString d =
     (case d of
        InvalidDate \<Rightarrow> Inl (RangeError ''Invalid time value'')
      | TimeValue tv \<Rightarrow>
          Inr (yearString (YearFromTime tv) @ ''-'' @
               ToZeroPaddedDecimalString (nat (MonthFromTime tv + 1)) 2 @ ''-'' @
               ToZeroPaddedDecimalString (nat (DateFromTime tv)) 2 @ ''T'' @
               ToZeroPaddedDecimalString (nat (HourFromTime tv)) 2 @ '':'' @
               ToZeroPaddedDecimalString (nat (MinFromTime tv)) 2 @ '':'' @
               ToZeroPaddedDecimalString (nat (SecFromTime tv)) 2 @ ''.'' @
               ToZeroPaddedDecimalString (nat (msFromTime tv)) 3 @ ''Z''))"

text \<open>
  \<^verbatim>\<open>new Date(string)\<close> takes the time value from \<^verbatim>\<open>Date.parse\<close> and clips it. The standard
  fixes what \<^verbatim>\<open>Date.parse\<close> returns on a string of its date-time format with every field
  in bounds. \<open>parseDateTime\<close> reads the complete form of that format in universal time, the
  one \<^verbatim>\<open>toISOString\<close> prints: a year of four digits, or of a sign and six digits (not
  \<^verbatim>\<open>-000000\<close>), a month from 01 to 12, a day of that month, an hour from 00 to 23, a
  minute and a second from 00 to 59, three digits of milliseconds, and \<^verbatim>\<open>Z\<close>. On any other
  string (the shorter forms of the format, the forms in local time, the hour 24, and the
  strings where the standard leaves the result to the implementation) the result is the one
  of the parameter \<open>host\<close>, of which nothing is assumed.
\<close>

definition readDigits :: "nat \<Rightarrow> string \<Rightarrow> (int \<times> string) option" where
  "readDigits n s =
     (if n \<le> length s \<and> list_all isDigit (take n s)
      then Some (int (digitsValue (take n s)), drop n s) else None)"

definition expect :: "char \<Rightarrow> string \<Rightarrow> string option" where
  "expect c s = (if s \<noteq> [] \<and> hd s = c then Some (tl s) else None)"

definition readYear :: "string \<Rightarrow> (int \<times> string) option" where
  "readYear s =
     (if s \<noteq> [] \<and> hd s = CHR ''+'' then readDigits 6 (tl s)
      else if s \<noteq> [] \<and> hd s = CHR ''-'' then
        Option.bind (readDigits 6 (tl s)) (\<lambda>(n, r). if n = 0 then None else Some (- n, r))
      else readDigits 4 s)"

definition DaysInMonth :: "int \<Rightarrow> int \<Rightarrow> int" where
  "DaysInMonth y m =
     (if m = 2 then (if DaysInYear y = 365 then 28 else 29)
      else if m = 4 \<or> m = 6 \<or> m = 9 \<or> m = 11 then 30 else 31)"

definition parseDateTime :: "string \<Rightarrow> int option" where
  "parseDateTime s0 =
     Option.bind (readYear s0) (\<lambda>(year, s1).
     Option.bind (expect (CHR ''-'') s1) (\<lambda>s2.
     Option.bind (readDigits 2 s2) (\<lambda>(month, s3).
     Option.bind (expect (CHR ''-'') s3) (\<lambda>s4.
     Option.bind (readDigits 2 s4) (\<lambda>(day, s5).
     Option.bind (expect (CHR ''T'') s5) (\<lambda>s6.
     Option.bind (readDigits 2 s6) (\<lambda>(hour, s7).
     Option.bind (expect (CHR '':'') s7) (\<lambda>s8.
     Option.bind (readDigits 2 s8) (\<lambda>(minute, s9).
     Option.bind (expect (CHR '':'') s9) (\<lambda>s10.
     Option.bind (readDigits 2 s10) (\<lambda>(sec, s11).
     Option.bind (expect (CHR ''.'') s11) (\<lambda>s12.
     Option.bind (readDigits 3 s12) (\<lambda>(ms, s13).
       if s13 = ''Z'' \<and> 1 \<le> month \<and> month \<le> 12 \<and> 1 \<le> day \<and> day \<le> DaysInMonth year month \<and>
          hour \<le> 23 \<and> minute \<le> 59 \<and> sec \<le> 59
       then Some (MakeDate (MakeDay year (month - 1) day) (MakeTime hour minute sec ms))
       else None)))))))))))))"

definition Date_parse :: "(string \<Rightarrow> int option) \<Rightarrow> string \<Rightarrow> int option" where
  "Date_parse host s = (case parseDateTime s of Some tv \<Rightarrow> Some tv | None \<Rightarrow> host s)"

definition newDate :: "(string \<Rightarrow> int option) \<Rightarrow> string \<Rightarrow> Date" where
  "newDate host s =
     (case Option.bind (Date_parse host s) TimeClip of None \<Rightarrow> InvalidDate | Some tv \<Rightarrow> TimeValue tv)"

text \<open>
  The converter \<^verbatim>\<open>isoDateConverter\<close>. Its \<^verbatim>\<open>stringify\<close> can throw, so the two functions are
  given on their own and not as a \<open>Converter\<close> record, the \<open>stringify\<close> of which is total.
\<close>

definition isoDateConverter_parse :: "(string \<Rightarrow> int option) \<Rightarrow> string \<Rightarrow> Date option" where
  "isoDateConverter_parse host str =
     (let date = newDate host str in if date = InvalidDate then None else Some date)"

definition isoDateConverter_stringify :: "Date \<Rightarrow> error + string" where
  "isoDateConverter_stringify x = toISOString x"

subsection \<open>What the specification says setDefaults calls\<close>

text \<open>
  The specification's reading of \<^verbatim>\<open>setDefaults\<close>, as the calls it makes on the store: for
  every field of the body, in order, one read of the field's key and, when \<^verbatim>\<open>hasItem\<close> of
  the field is false in the world \<open>w\<close>, one write of the stringified default.
\<close>

definition spec_setDefaults_calls ::
  "'v TypedStorage \<Rightarrow> world \<Rightarrow> (string \<times> 'v) list \<Rightarrow> (storage \<times> call) list" where
  "spec_setDefaults_calls this w body =
     concat (map (\<lambda>(key, v).
       (storage this, CallGetItem (prefix this @ key)) #
       (if fst (hasItem this key w) = Inr False
        then (case map_of (converters this) key of
                None \<Rightarrow> []
              | Some c \<Rightarrow> [(storage this, CallSetItem (prefix this @ key) (stringify c v))])
        else [])) body)"

subsection \<open>Example worlds, schemas and instances\<close>

text \<open>
  A world in which nothing was constructed and nothing stored, whose host accepts every
  write; schemas of string fields; the world after an instance with the field \<^verbatim>\<open>b\<close> was
  constructed on \<^verbatim>\<open>localStorage\<close> without a prefix, and the world after one with the
  prefix \<^verbatim>\<open>a\<close> and the field \<^verbatim>\<open>bc\<close>; an instance with a boolean field and one with an
  integer field; a world whose \<^verbatim>\<open>localStorage\<close> holds a string the boolean converter
  cannot parse; and the world after the first \<^verbatim>\<open>setDefaults\<close> of scenario D.
\<close>

definition freshWorld :: world where
  "freshWorld = \<lparr>contents = (\<lambda>s. Map.empty), refuses = (\<lambda>s m k v. False), calls = [],
                 takenKeys = Map.empty\<rparr>"

definition schemaB :: "string Converters" where
  "schemaB = [(''b'', stringConverter)]"

definition schemaAB :: "string Converters" where
  "schemaAB = [(''a'', stringConverter), (''b'', stringConverter)]"

definition worldB :: world where
  "worldB = snd (constructor localStorage (Inr schemaB) None freshWorld)"

definition schemaBC :: "string Converters" where
  "schemaBC = [(''bc'', stringConverter)]"

definition schemaC :: "string Converters" where
  "schemaC = [(''c'', stringConverter)]"

definition worldABC :: world where
  "worldABC = snd (constructor localStorage (Inl ''a'') (Some schemaBC) freshWorld)"

definition flagStorage :: "bool TypedStorage" where
  "flagStorage = \<lparr>storage = localStorage, prefix = ''p_'', converters = [(''flag'', booleanConverter)]\<rparr>"

definition garbageWorld :: world where
  "garbageWorld = freshWorld\<lparr>contents := (\<lambda>s. Map.empty)(localStorage := [''p_flag'' \<mapsto> ''yes'', ''other'' \<mapsto> ''x''])\<rparr>"

definition countStorage :: "number TypedStorage" where
  "countStorage = \<lparr>storage = localStorage, prefix = '''', converters = [(''count'', intConverter)]\<rparr>"

definition flagWorld :: world where
  "flagWorld = snd (setDefaults flagStorage [(''flag'', False)] freshWorld)"

section \<open>The constructor and the registry\<close>

text \<open>The loop changes nothing but the registry's entry of its own store.\<close>

lemma constructor_loop_frame:
  "constructor_loop s p keys taken w = (r, w') \<Longrightarrow>
     contents w' = contents w \<and> calls w' = calls w \<and> refuses w' = refuses w \<and>
     (\<forall>s'. s' \<noteq> s \<longrightarrow> takenKeys w' s' = takenKeys w s')"
proof (induction keys arbitrary: taken w)
  case Nil
  then show ?case by simp
next
  case (Cons key keys)
  show ?case
  proof (cases "p @ key \<in> taken")
    case True
    with Cons.prems show ?thesis by simp
  next
    case False
    with Cons.prems have
      "constructor_loop s p keys (insert (p @ key) taken)
         (w\<lparr>takenKeys := (takenKeys w)(s \<mapsto> insert (p @ key) taken)\<rparr>) = (r, w')"
      by (simp add: Let_def)
    from Cons.IH [OF this] show ?thesis by simp
  qed
qed

text \<open>
  What the loop returns and leaves, for keys that are pairwise different: it fails at the
  first key whose effective key is taken, and by then it has added the effective keys of
  all the keys before that one.
\<close>

lemma constructor_loop_result:
  "distinct keys \<Longrightarrow> takenKeys w s = Some taken \<Longrightarrow>
   constructor_loop s p keys taken w =
     (case dropWhile (\<lambda>k. p @ k \<notin> taken) keys of
        [] \<Rightarrow> Inr ()
      | k # ks \<Rightarrow> Inl (Error (takenMessage s (p @ k))),
      w\<lparr>takenKeys := (takenKeys w)(s \<mapsto>
           taken \<union> (\<lambda>k. p @ k) ` set (takeWhile (\<lambda>k. p @ k \<notin> taken) keys))\<rparr>)"
proof (induction keys arbitrary: taken w)
  case Nil
  then have "(takenKeys w)(s \<mapsto> taken) = takenKeys w" by (simp add: fun_upd_idem)
  then show ?case by simp
next
  case (Cons key keys)
  show ?case
  proof (cases "p @ key \<in> taken")
    case True
    from Cons.prems have "(takenKeys w)(s \<mapsto> taken) = takenKeys w" by (simp add: fun_upd_idem)
    with True show ?thesis by simp
  next
    case False
    let ?taken = "insert (p @ key) taken"
    let ?w = "w\<lparr>takenKeys := (takenKeys w)(s \<mapsto> ?taken)\<rparr>"
    from Cons.prems have d: "distinct keys" and nk: "key \<notin> set keys" by simp_all
    have same: "\<And>k. k \<in> set keys \<Longrightarrow> (p @ k \<notin> ?taken) = (p @ k \<notin> taken)"
      using nk by auto
    have dw: "dropWhile (\<lambda>k. p @ k \<notin> ?taken) keys = dropWhile (\<lambda>k. p @ k \<notin> taken) keys"
      by (rule dropWhile_cong [OF refl]) (rule same)
    have tw: "takeWhile (\<lambda>k. p @ k \<notin> ?taken) keys = takeWhile (\<lambda>k. p @ k \<notin> taken) keys"
      by (rule takeWhile_cong [OF refl]) (rule same)
    define D where "D = dropWhile (\<lambda>k. p @ k \<notin> taken) keys"
    define X where "X = (\<lambda>k. p @ k) ` set (takeWhile (\<lambda>k. p @ k \<notin> taken) keys)"
    have "takenKeys ?w s = Some ?taken" by simp
    from Cons.IH [OF d this, unfolded dw tw]
    have rest: "constructor_loop s p keys ?taken ?w =
      (case D of [] \<Rightarrow> Inr () | k # ks \<Rightarrow> Inl (Error (takenMessage s (p @ k))),
       ?w\<lparr>takenKeys := (takenKeys ?w)(s \<mapsto> ?taken \<union> X)\<rparr>)"
      by (simp only: D_def X_def)
    have step: "constructor_loop s p (key # keys) taken w = constructor_loop s p keys ?taken ?w"
      using False by (simp add: Let_def)
    have dk: "dropWhile (\<lambda>k. p @ k \<notin> taken) (key # keys) = D"
      using False by (simp add: D_def)
    have tk: "(\<lambda>k. p @ k) ` set (takeWhile (\<lambda>k. p @ k \<notin> taken) (key # keys)) = insert (p @ key) X"
      using False by (simp add: X_def)
    have sets: "taken \<union> insert (p @ key) X = ?taken \<union> X" by auto
    have wu: "?w\<lparr>takenKeys := (takenKeys ?w)(s \<mapsto> ?taken \<union> X)\<rparr> =
              w\<lparr>takenKeys := (takenKeys w)(s \<mapsto> ?taken \<union> X)\<rparr>"
      by simp
    show ?thesis
      unfolding step rest dk tk sets wu by (rule refl)
  qed
qed

lemma getTakenKey_eq:
  "getTakenKey s w = (claimed w s, w\<lparr>takenKeys := (takenKeys w)(s \<mapsto> claimed w s)\<rparr>)"
proof (cases "takenKeys w s")
  case None
  then show ?thesis by (simp add: getTakenKey_def claimed_def)
next
  case (Some taken)
  then have "(takenKeys w)(s \<mapsto> taken) = takenKeys w" by (simp add: fun_upd_idem)
  with Some show ?thesis by (simp add: getTakenKey_def claimed_def)
qed

lemma constructor_result:
  assumes "normalizeArgs pa ca = (p, Some c)" and "distinct (map fst c)"
  shows "constructor s pa ca w =
     (case dropWhile (\<lambda>k. p @ k \<notin> claimed w s) (map fst c) of
        [] \<Rightarrow> Inr \<lparr>storage = s, prefix = p, converters = c\<rparr>
      | k # ks \<Rightarrow> Inl (Error (takenMessage s (p @ k))),
      w\<lparr>takenKeys := (takenKeys w)(s \<mapsto>
           claimed w s \<union> (\<lambda>k. p @ k) ` set (takeWhile (\<lambda>k. p @ k \<notin> claimed w s) (map fst c)))\<rparr>)"
proof -
  define w1 where "w1 = w\<lparr>takenKeys := (takenKeys w)(s \<mapsto> claimed w s)\<rparr>"
  define D where "D = dropWhile (\<lambda>k. p @ k \<notin> claimed w s) (map fst c)"
  define T where "T = claimed w s \<union>
    (\<lambda>k. p @ k) ` set (takeWhile (\<lambda>k. p @ k \<notin> claimed w s) (map fst c))"
  have "takenKeys w1 s = Some (claimed w s)" by (simp add: w1_def)
  from constructor_loop_result [OF assms(2) this]
  have loop: "constructor_loop s p (map fst c) (claimed w s) w1 =
     (case D of [] \<Rightarrow> Inr () | k # ks \<Rightarrow> Inl (Error (takenMessage s (p @ k))),
      w\<lparr>takenKeys := (takenKeys w)(s \<mapsto> T)\<rparr>)"
    by (simp add: D_def T_def w1_def)
  have "constructor s pa ca w =
     (case D of [] \<Rightarrow> Inr \<lparr>storage = s, prefix = p, converters = c\<rparr>
      | k # ks \<Rightarrow> Inl (Error (takenMessage s (p @ k))),
      w\<lparr>takenKeys := (takenKeys w)(s \<mapsto> T)\<rparr>)"
    by (cases D) (simp_all add: constructor_def getTakenKey_eq assms(1) loop w1_def [symmetric])
  then show ?thesis by (simp add: D_def T_def)
qed

lemma constructor_success:
  assumes "normalizeArgs pa ca = (p, Some c)" and "distinct (map fst c)"
    and "constructor s pa ca w = (Inr this, w')"
  shows "this = \<lparr>storage = s, prefix = p, converters = c\<rparr> \<and>
         (\<forall>k\<in>set (map fst c). p @ k \<notin> claimed w s) \<and>
         w' = w\<lparr>takenKeys := (takenKeys w)(s \<mapsto> claimed w s \<union> (\<lambda>k. p @ k) ` set (map fst c))\<rparr>"
proof -
  let ?free = "\<lambda>k. p @ k \<notin> claimed w s"
  let ?keys = "map fst c"
  note r = constructor_result [OF assms(1,2), of s w]
  from r assms(3) have dw: "dropWhile ?free ?keys = []"
    by (cases "dropWhile ?free ?keys") auto
  then have all: "\<forall>k\<in>set ?keys. ?free k" by (simp add: dropWhile_eq_Nil_conv)
  then have tw: "takeWhile ?free ?keys = ?keys" by (simp add: takeWhile_eq_all_conv)
  from r assms(3) show ?thesis
    unfolding dw tw using all by simp
qed

lemma constructor_succeeds:
  assumes "normalizeArgs pa ca = (p, Some c)" and "distinct (map fst c)"
    and "\<forall>k\<in>set (map fst c). p @ k \<notin> claimed w s"
  shows "constructor s pa ca w =
     (Inr \<lparr>storage = s, prefix = p, converters = c\<rparr>,
      w\<lparr>takenKeys := (takenKeys w)(s \<mapsto> claimed w s \<union> (\<lambda>k. p @ k) ` set (map fst c))\<rparr>)"
proof -
  let ?free = "\<lambda>k. p @ k \<notin> claimed w s"
  let ?keys = "map fst c"
  from assms(3) have dw: "dropWhile ?free ?keys = []" by (simp add: dropWhile_eq_Nil_conv)
  from assms(3) have tw: "takeWhile ?free ?keys = ?keys" by (simp add: takeWhile_eq_all_conv)
  show ?thesis
    unfolding constructor_result [OF assms(1,2), of s w] dw tw by simp
qed

lemma constructor_fails:
  assumes "normalizeArgs pa ca = (p, Some c)" and "distinct (map fst c)"
    and "k \<in> set (map fst c)" and "p @ k \<in> claimed w s"
  shows "\<exists>key w'. constructor s pa ca w = (Inl (Error (takenMessage s key)), w') \<and>
           key \<in> claimed w s \<and> key \<in> (\<lambda>k. p @ k) ` set (map fst c) \<and>
           w' = w\<lparr>takenKeys := takenKeys w'\<rparr>"
proof -
  let ?free = "\<lambda>k. p @ k \<notin> claimed w s"
  let ?keys = "map fst c"
  from assms(3,4) have "dropWhile ?free ?keys \<noteq> []"
    by (auto simp: dropWhile_eq_Nil_conv)
  then obtain k' ks where dw: "dropWhile ?free ?keys = k' # ks"
    by (cases "dropWhile ?free ?keys") auto
  have "k' \<in> set (dropWhile ?free ?keys)" by (simp add: dw)
  then have kin: "k' \<in> set ?keys" by (rule set_dropWhileD)
  have "\<not> ?free (hd (dropWhile ?free ?keys))"
    by (rule hd_dropWhile) (simp add: dw)
  then have kc: "p @ k' \<in> claimed w s" by (simp add: dw)
  show ?thesis
    unfolding constructor_result [OF assms(1,2), of s w] dw
    using kin kc by auto
qed

text \<open>
  Two instances constructed on one store, the second in any world that still has the
  first one's keys claimed, have no effective key in common.
\<close>

lemma instances_have_distinct_keys:
  assumes "normalizeArgs pa1 ca1 = (p1, Some c1)" and "distinct (map fst c1)"
    and "constructor s pa1 ca1 w0 = (Inr first, w1)"
    and "claimed w1 s \<subseteq> claimed w s"
    and "normalizeArgs pa2 ca2 = (p2, Some c2)" and "distinct (map fst c2)"
    and "constructor s pa2 ca2 w = (Inr second, w2)"
    and "f \<in> set (map fst c1)" and "g \<in> set (map fst c2)"
  shows "prefix second @ g \<noteq> prefix first @ f"
proof -
  from constructor_success [OF assms(1,2,3)] assms(8)
  have "prefix first = p1" and "p1 @ f \<in> claimed w1 s" by (simp_all add: claimed_def)
  with assms(4) have a: "prefix first @ f \<in> claimed w s" by auto
  from constructor_success [OF assms(5,6,7)] assms(9)
  have "prefix second = p2" and "p2 @ g \<notin> claimed w s" by auto
  with a show ?thesis by auto
qed

subsection \<open>The methods, written out\<close>

lemma getItem_eq:
  "getItem this key w =
     (case contents w (storage this) (prefix this @ key) of
        None \<Rightarrow> Inr None
      | Some str \<Rightarrow>
          (case map_of (converters this) key of
             None \<Rightarrow> Inl noConverter
           | Some c \<Rightarrow> Inr (parse c str)),
      w\<lparr>calls := calls w @ [(storage this, CallGetItem (prefix this @ key))]\<rparr>)"
  by (simp add: getItem_def Storage_getItem_def split: option.splits)

lemma hasItem_eq:
  "hasItem this key w =
     (case contents w (storage this) (prefix this @ key) of
        None \<Rightarrow> Inr False
      | Some str \<Rightarrow>
          (case map_of (converters this) key of
             None \<Rightarrow> Inl noConverter
           | Some c \<Rightarrow> Inr (parse c str \<noteq> None)),
      w\<lparr>calls := calls w @ [(storage this, CallGetItem (prefix this @ key))]\<rparr>)"
  by (simp add: hasItem_def getItem_eq split: option.splits)

lemma setItem_eq:
  "map_of (converters this) key = Some c \<Longrightarrow>
   setItem this key v w =
     (if refuses w (storage this) (contents w (storage this)) (prefix this @ key) (stringify c v)
      then (Inl QuotaExceededError,
            w\<lparr>calls := calls w @ [(storage this, CallSetItem (prefix this @ key) (stringify c v))]\<rparr>)
      else (Inr (),
            w\<lparr>contents := (contents w)(storage this :=
                   (contents w (storage this))(prefix this @ key \<mapsto> stringify c v)),
              calls := calls w @ [(storage this, CallSetItem (prefix this @ key) (stringify c v))]\<rparr>))"
  by (simp add: setItem_def Storage_setItem_def)

lemma getItem_ignores_registry:
  "getItem this key (w\<lparr>takenKeys := T\<rparr>) =
     (fst (getItem this key w), (snd (getItem this key w))\<lparr>takenKeys := T\<rparr>)"
  by (simp add: getItem_eq)

lemma hasItem_ignores_registry:
  "hasItem this key (w\<lparr>takenKeys := T\<rparr>) =
     (fst (hasItem this key w), (snd (hasItem this key w))\<lparr>takenKeys := T\<rparr>)"
  by (simp add: hasItem_eq)

lemma setItem_ignores_registry:
  "setItem this key v (w\<lparr>takenKeys := T\<rparr>) =
     (fst (setItem this key v w), (snd (setItem this key v w))\<lparr>takenKeys := T\<rparr>)"
  by (simp add: setItem_def Storage_setItem_def split: option.splits)

lemma removeItem_ignores_registry:
  "removeItem this key (w\<lparr>takenKeys := T\<rparr>) = (removeItem this key w)\<lparr>takenKeys := T\<rparr>"
  by (simp add: removeItem_def Storage_removeItem_def)

lemma removeItem_eq:
  "removeItem this key w =
     w\<lparr>contents := (contents w)(storage this := (contents w (storage this))(prefix this @ key := None)),
       calls := calls w @ [(storage this, CallRemoveItem (prefix this @ key))]\<rparr>"
  by (simp add: removeItem_def Storage_removeItem_def)

subsection \<open>The example constructions\<close>

lemma worldB_eq: "worldB = freshWorld\<lparr>takenKeys := [localStorage \<mapsto> {''b''}]\<rparr>"
  by (simp add: worldB_def constructor_def normalizeArgs_def getTakenKey_def schemaB_def
      freshWorld_def)

lemma claimed_worldB: "claimed worldB localStorage = {''b''}"
  by (simp add: worldB_eq claimed_def)

lemma first_B_succeeds:
  "constructor localStorage (Inr schemaB) None freshWorld =
     (Inr \<lparr>storage = localStorage, prefix = '''', converters = schemaB\<rparr>, worldB)"
  unfolding worldB_eq
  by (simp add: constructor_def normalizeArgs_def getTakenKey_def schemaB_def freshWorld_def)

lemma second_AB_fails:
  "constructor localStorage (Inr schemaAB) None worldB =
     (Inl (Error ''the key \"b\" from localStorage is already taken.''),
      freshWorld\<lparr>takenKeys := [localStorage \<mapsto> {''a'', ''b''}]\<rparr>)"
  unfolding worldB_eq
  by (simp add: constructor_def normalizeArgs_def getTakenKey_def schemaAB_def
      freshWorld_def takenMessage_def insert_commute)

lemma first_ABC_succeeds:
  "constructor localStorage (Inl ''a'') (Some schemaBC) freshWorld =
     (Inr \<lparr>storage = localStorage, prefix = ''a'', converters = schemaBC\<rparr>, worldABC)"
  by (simp add: worldABC_def constructor_def normalizeArgs_def getTakenKey_def schemaBC_def
      freshWorld_def)

text \<open>
  C1 (amended). A construction that fails on a claimed key has claimed, for its store, the
  effective keys of the fields before the first colliding field, in the order of
  \<^verbatim>\<open>Object.keys\<close>, and keeps them claimed: the loop adds each key as soon as it has
  checked it, and nothing is undone when a later key collides. The claimed set of the store
  is unchanged when the first field is the colliding one. The error names the colliding key,
  which is claimed before the attempt; no other store's claimed set changes, and neither do
  the stores' contents.
\<close>

theorem failed_construction_claims_leading_keys:
  assumes "normalizeArgs pa ca = (p, Some c)" and "distinct (map fst c)"
    and "constructor s pa ca w = (Inl e, w')"
  shows "(\<exists>k. k \<in> set (map fst c) \<and> p @ k \<in> claimed w s \<and> e = Error (takenMessage s (p @ k))) \<and>
         claimed w' s = claimed w s \<union>
           (\<lambda>k. p @ k) ` set (takeWhile (\<lambda>k. p @ k \<notin> claimed w s) (map fst c)) \<and>
         (p @ hd (map fst c) \<in> claimed w s \<longrightarrow> claimed w' s = claimed w s) \<and>
         (\<forall>s'. s' \<noteq> s \<longrightarrow> claimed w' s' = claimed w s') \<and>
         contents w' = contents w \<and> calls w' = calls w"
proof -
  let ?free = "\<lambda>k. p @ k \<notin> claimed w s"
  let ?keys = "map fst c"
  note r = constructor_result [OF assms(1,2), of s w]
  from r assms(3) obtain k ks where dw: "dropWhile ?free ?keys = k # ks"
    by (cases "dropWhile ?free ?keys") auto
  from r assms(3) dw have e: "e = Error (takenMessage s (p @ k))"
    and w': "w' = w\<lparr>takenKeys := (takenKeys w)(s \<mapsto>
           claimed w s \<union> (\<lambda>k. p @ k) ` set (takeWhile ?free ?keys))\<rparr>"
    by simp_all
  have "k \<in> set (dropWhile ?free ?keys)" by (simp add: dw)
  then have kin: "k \<in> set ?keys" by (rule set_dropWhileD)
  have "\<not> ?free (hd (dropWhile ?free ?keys))"
    by (rule hd_dropWhile) (simp add: dw)
  then have kc: "p @ k \<in> claimed w s" by (simp add: dw)
  have first: "p @ hd ?keys \<in> claimed w s \<longrightarrow> claimed w' s = claimed w s"
  proof
    assume h: "p @ hd ?keys \<in> claimed w s"
    from kin have "?keys \<noteq> []" by auto
    with h have "takeWhile ?free ?keys = []" by (cases ?keys) simp_all
    then show "claimed w' s = claimed w s" by (simp add: w' claimed_def)
  qed
  from kin kc e first show ?thesis
    by (auto simp: w' claimed_def)
qed

text \<open>
  The theorem at a failing construction: with \<^verbatim>\<open>b\<close> claimed, the schema
  \<^verbatim>\<open>{a, b}\<close> fails and leaves \<^verbatim>\<open>a\<close> claimed as well.
\<close>

theorem failed_construction_claims_leading_keys_witness:
  "claimed (snd (constructor localStorage (Inr schemaAB) None worldB)) localStorage =
     claimed worldB localStorage \<union> {''a''}"
proof -
  have n: "normalizeArgs (Inr schemaAB) None = ('''', Some schemaAB)"
    by (simp add: normalizeArgs_def)
  have d: "distinct (map fst schemaAB)" by (simp add: schemaAB_def)
  have "claimed (snd (constructor localStorage (Inr schemaAB) None worldB)) localStorage =
     claimed worldB localStorage \<union> (\<lambda>k. '''' @ k) `
       set (takeWhile (\<lambda>k. '''' @ k \<notin> claimed worldB localStorage) (map fst schemaAB))"
    using failed_construction_claims_leading_keys [OF n d second_AB_fails] by (simp add: second_AB_fails)
  then show ?thesis by (simp add: claimed_worldB schemaAB_def)
qed

text \<open>
  C1 as stated fails: the construction below fails on \<^verbatim>\<open>b\<close>, and the claimed set of
  the store is \<^verbatim>\<open>{a, b}\<close> afterwards where it was \<^verbatim>\<open>{b}\<close> before.
\<close>

theorem failed_construction_not_atomic:
  "fst (constructor localStorage (Inr schemaAB) None worldB) =
     Inl (Error ''the key \"b\" from localStorage is already taken.'') \<and>
   claimed worldB localStorage = {''b''} \<and>
   claimed (snd (constructor localStorage (Inr schemaAB) None worldB)) localStorage = {''a'', ''b''} \<and>
   claimed (snd (constructor localStorage (Inr schemaAB) None worldB)) localStorage \<noteq>
     claimed worldB localStorage"
  by (simp add: second_AB_fails claimed_worldB) (simp add: claimed_def)

text \<open>
  C2. Let a first construction on a store succeed, and let a second construction on the
  same store, in any later world that still has the first one's keys claimed, have a field
  whose effective key (its prefix followed by the field name) is an effective key of the
  first, whatever the two prefixes are. Then the second construction throws the error
  that names a claimed key of its own, and it changes nothing but the registry: the
  contents of the stores and the host are as before, so every \<^verbatim>\<open>getItem\<close>,
  \<^verbatim>\<open>hasItem\<close>, \<^verbatim>\<open>setItem\<close> and \<^verbatim>\<open>removeItem\<close> of the first instance returns
  and does afterwards what it would have returned and done before.
\<close>

theorem second_construction_collides:
  assumes "normalizeArgs pa1 ca1 = (p1, Some c1)" and "distinct (map fst c1)"
    and "constructor s pa1 ca1 w0 = (Inr first, w1)"
    and "claimed w1 s \<subseteq> claimed w s"
    and "normalizeArgs pa2 ca2 = (p2, Some c2)" and "distinct (map fst c2)"
    and "k1 \<in> set (map fst c1)" and "k2 \<in> set (map fst c2)" and "p2 @ k2 = p1 @ k1"
  shows "\<exists>key w2. constructor s pa2 ca2 w = (Inl (Error (takenMessage s key)), w2) \<and>
           key \<in> claimed w s \<and> key \<in> (\<lambda>k. p2 @ k) ` set (map fst c2) \<and>
           contents w2 = contents w \<and> refuses w2 = refuses w \<and> calls w2 = calls w \<and>
           (\<forall>f v. getItem first f w2 =
                    (fst (getItem first f w), (snd (getItem first f w))\<lparr>takenKeys := takenKeys w2\<rparr>) \<and>
                  hasItem first f w2 =
                    (fst (hasItem first f w), (snd (hasItem first f w))\<lparr>takenKeys := takenKeys w2\<rparr>) \<and>
                  setItem first f v w2 =
                    (fst (setItem first f v w), (snd (setItem first f v w))\<lparr>takenKeys := takenKeys w2\<rparr>) \<and>
                  removeItem first f w2 = (removeItem first f w)\<lparr>takenKeys := takenKeys w2\<rparr>)"
proof -
  from constructor_success [OF assms(1,2,3)] assms(7)
  have "p1 @ k1 \<in> claimed w1 s" by (simp add: claimed_def)
  with assms(4,9) have "p2 @ k2 \<in> claimed w s" by auto
  from constructor_fails [OF assms(5,6,8) this]
  obtain key w2 where c: "constructor s pa2 ca2 w = (Inl (Error (takenMessage s key)), w2)"
    and k: "key \<in> claimed w s" "key \<in> (\<lambda>k. p2 @ k) ` set (map fst c2)"
    and w2: "w2 = w\<lparr>takenKeys := takenKeys w2\<rparr>"
    by blast
  have g: "\<And>f. getItem first f w2 =
      (fst (getItem first f w), (snd (getItem first f w))\<lparr>takenKeys := takenKeys w2\<rparr>)"
    by (subst w2) (rule getItem_ignores_registry)
  have h: "\<And>f. hasItem first f w2 =
      (fst (hasItem first f w), (snd (hasItem first f w))\<lparr>takenKeys := takenKeys w2\<rparr>)"
    by (subst w2) (rule hasItem_ignores_registry)
  have st: "\<And>f v. setItem first f v w2 =
      (fst (setItem first f v w), (snd (setItem first f v w))\<lparr>takenKeys := takenKeys w2\<rparr>)"
    by (subst w2) (rule setItem_ignores_registry)
  have rm: "\<And>f. removeItem first f w2 = (removeItem first f w)\<lparr>takenKeys := takenKeys w2\<rparr>"
    by (subst w2) (rule removeItem_ignores_registry)
  have frame: "contents w2 = contents w \<and> refuses w2 = refuses w \<and> calls w2 = calls w"
    by (subst (1 2 3) w2) simp
  from c k frame g h st rm show ?thesis by blast
qed

text \<open>
  The theorem at two prefixes that give the same concatenation: prefix \<^verbatim>\<open>a\<close> with
  field \<^verbatim>\<open>bc\<close>, then prefix \<^verbatim>\<open>ab\<close> with field \<^verbatim>\<open>c\<close>.
\<close>

theorem second_construction_collides_witness:
  "\<exists>w2. constructor localStorage (Inl ''ab'') (Some schemaC) worldABC =
          (Inl (Error ''the key \"abc\" from localStorage is already taken.''), w2) \<and>
        contents w2 = contents worldABC \<and>
        getItem \<lparr>storage = localStorage, prefix = ''a'', converters = schemaBC\<rparr> ''bc'' w2 =
          (fst (getItem \<lparr>storage = localStorage, prefix = ''a'', converters = schemaBC\<rparr> ''bc'' worldABC),
           (snd (getItem \<lparr>storage = localStorage, prefix = ''a'', converters = schemaBC\<rparr> ''bc'' worldABC))
             \<lparr>takenKeys := takenKeys w2\<rparr>)"
proof -
  have n1: "normalizeArgs (Inl ''a'') (Some schemaBC) = (''a'', Some schemaBC)"
    by (simp add: normalizeArgs_def)
  have n2: "normalizeArgs (Inl ''ab'') (Some schemaC) = (''ab'', Some schemaC)"
    by (simp add: normalizeArgs_def)
  have d1: "distinct (map fst schemaBC)" by (simp add: schemaBC_def)
  have d2: "distinct (map fst schemaC)" by (simp add: schemaC_def)
  have k1: "''bc'' \<in> set (map fst schemaBC)" by (simp add: schemaBC_def)
  have k2: "''c'' \<in> set (map fst schemaC)" by (simp add: schemaC_def)
  have same: "''ab'' @ ''c'' = ''a'' @ ''bc''" by simp
  let ?first = "\<lparr>storage = localStorage, prefix = ''a'', converters = schemaBC\<rparr>"
  from second_construction_collides [OF n1 d1 first_ABC_succeeds subset_refl n2 d2 k1 k2 same]
  obtain key w2 where
    c: "constructor localStorage (Inl ''ab'') (Some schemaC) worldABC =
          (Inl (Error (takenMessage localStorage key)), w2)"
    and k: "key \<in> (\<lambda>k. ''ab'' @ k) ` set (map fst schemaC)"
    and f: "contents w2 = contents worldABC"
    and g: "getItem ?first ''bc'' w2 =
          (fst (getItem ?first ''bc'' worldABC),
           (snd (getItem ?first ''bc'' worldABC))\<lparr>takenKeys := takenKeys w2\<rparr>)"
    by blast
  from k have "key = ''abc''" by (simp add: schemaC_def)
  then have "takenMessage localStorage key = ''the key \"abc\" from localStorage is already taken.''"
    by (simp add: takenMessage_def)
  with c f g show ?thesis by (intro exI [of _ w2]) simp
qed

text \<open>
  C8. The overload without a prefix is the overload with the empty string as the prefix:
  the two calls return the same result (the same instance, or the same error) and leave
  the same world, so every later operation is the same as well.
\<close>

theorem no_prefix_is_empty_prefix:
  "constructor s (Inr c) None w = constructor s (Inl '''') (Some c) w"
  by (simp add: constructor_def normalizeArgs_def)

text \<open>The theorem at the schema with the field \<^verbatim>\<open>b\<close>, in the fresh world.\<close>

theorem no_prefix_is_empty_prefix_witness:
  "constructor localStorage (Inr schemaB) None freshWorld =
     constructor localStorage (Inl '''') (Some schemaB) freshWorld"
  by (rule no_prefix_is_empty_prefix)

text \<open>
  C10. The registry keeps one claimed set per store: when no effective key of a schema is
  claimed yet for either of two different stores, constructing the same prefix and schema
  on the first store and then on the second succeeds both times; the first construction
  leaves the second store's claimed set as it was, and the second leaves the first's.
\<close>

theorem registry_is_per_store:
  assumes "s1 \<noteq> s2" and "normalizeArgs pa ca = (p, Some c)" and "distinct (map fst c)"
    and "\<forall>k\<in>set (map fst c). p @ k \<notin> claimed w s1 \<and> p @ k \<notin> claimed w s2"
  shows "\<exists>w1 w2. constructor s1 pa ca w = (Inr \<lparr>storage = s1, prefix = p, converters = c\<rparr>, w1) \<and>
           constructor s2 pa ca w1 = (Inr \<lparr>storage = s2, prefix = p, converters = c\<rparr>, w2) \<and>
           claimed w1 s1 = claimed w s1 \<union> (\<lambda>k. p @ k) ` set (map fst c) \<and>
           claimed w1 s2 = claimed w s2 \<and>
           claimed w2 s1 = claimed w1 s1 \<and>
           claimed w2 s2 = claimed w s2 \<union> (\<lambda>k. p @ k) ` set (map fst c)"
proof -
  let ?K = "(\<lambda>k. p @ k) ` set (map fst c)"
  let ?w1 = "w\<lparr>takenKeys := (takenKeys w)(s1 \<mapsto> claimed w s1 \<union> ?K)\<rparr>"
  let ?w2 = "?w1\<lparr>takenKeys := (takenKeys ?w1)(s2 \<mapsto> claimed ?w1 s2 \<union> ?K)\<rparr>"
  from assms(4) have f1: "\<forall>k\<in>set (map fst c). p @ k \<notin> claimed w s1" by simp
  have c12: "claimed ?w1 s2 = claimed w s2" using assms(1) by (simp add: claimed_def)
  with assms(4) have f2: "\<forall>k\<in>set (map fst c). p @ k \<notin> claimed ?w1 s2" by simp
  have a: "constructor s1 pa ca w = (Inr \<lparr>storage = s1, prefix = p, converters = c\<rparr>, ?w1)"
    by (rule constructor_succeeds [OF assms(2,3) f1])
  have b: "constructor s2 pa ca ?w1 = (Inr \<lparr>storage = s2, prefix = p, converters = c\<rparr>, ?w2)"
    by (rule constructor_succeeds [OF assms(2,3) f2])
  have "claimed ?w1 s1 = claimed w s1 \<union> ?K" by (simp add: claimed_def)
  moreover have "claimed ?w2 s1 = claimed ?w1 s1" using assms(1) by (simp add: claimed_def)
  moreover have "claimed ?w2 s2 = claimed w s2 \<union> ?K" using assms(1) by (simp add: claimed_def)
  ultimately show ?thesis using a b c12 by blast
qed

text \<open>
  The theorem at \<^verbatim>\<open>localStorage\<close> and \<^verbatim>\<open>sessionStorage\<close>, in the fresh world.
\<close>

theorem registry_is_per_store_witness:
  "\<exists>w1 w2. constructor localStorage (Inr schemaAB) None freshWorld =
             (Inr \<lparr>storage = localStorage, prefix = '''', converters = schemaAB\<rparr>, w1) \<and>
           constructor sessionStorage (Inr schemaAB) None w1 =
             (Inr \<lparr>storage = sessionStorage, prefix = '''', converters = schemaAB\<rparr>, w2) \<and>
           claimed w2 localStorage = {''a'', ''b''} \<and> claimed w2 sessionStorage = {''a'', ''b''}"
proof -
  have n: "normalizeArgs (Inr schemaAB) None = ('''', Some schemaAB)"
    by (simp add: normalizeArgs_def)
  have d: "distinct (map fst schemaAB)" by (simp add: schemaAB_def)
  have ne: "localStorage \<noteq> sessionStorage" by simp
  have free: "\<forall>k\<in>set (map fst schemaAB).
      '''' @ k \<notin> claimed freshWorld localStorage \<and> '''' @ k \<notin> claimed freshWorld sessionStorage"
    by (simp add: claimed_def freshWorld_def)
  have e: "claimed freshWorld localStorage = {}" "claimed freshWorld sessionStorage = {}"
    by (simp_all add: claimed_def freshWorld_def)
  have K: "(\<lambda>k. '''' @ k) ` set (map fst schemaAB) = {''a'', ''b''}"
    by (simp add: schemaAB_def)
  from registry_is_per_store [OF ne n d free, unfolded e K]
  obtain w1 w2 where
    a: "constructor localStorage (Inr schemaAB) None freshWorld =
       (Inr \<lparr>storage = localStorage, prefix = [], converters = schemaAB\<rparr>, w1)"
    and b: "constructor sessionStorage (Inr schemaAB) None w1 =
       (Inr \<lparr>storage = sessionStorage, prefix = [], converters = schemaAB\<rparr>, w2)"
    and c1: "claimed w1 localStorage = {} \<union> {''a'', ''b''}"
    and c2: "claimed w2 localStorage = claimed w1 localStorage"
    and c3: "claimed w2 sessionStorage = {} \<union> {''a'', ''b''}"
    by (elim exE conjE)
  from c1 c2 have c4: "claimed w2 localStorage = {''a'', ''b''}" by simp
  from c3 have c5: "claimed w2 sessionStorage = {''a'', ''b''}" by simp
  from a b c4 c5 show ?thesis by (intro exI [of _ w1] exI [of _ w2] conjI)
qed

section \<open>Reading, writing and removing\<close>

lemma flagStorage_flag: "map_of (converters flagStorage) ''flag'' = Some booleanConverter"
  by (simp add: flagStorage_def)

lemma garbage_flag: "contents garbageWorld (storage flagStorage) (prefix flagStorage @ ''flag'') = Some ''yes''"
  by (simp add: garbageWorld_def flagStorage_def)

lemma fresh_flag: "contents freshWorld (storage flagStorage) (prefix flagStorage @ ''flag'') = None"
  by (simp add: freshWorld_def)

lemma parse_yes: "parse booleanConverter ''yes'' = None"
  by (simp add: booleanConverter_def)

text \<open>
  C4. For a field of the schema, \<^verbatim>\<open>getItem\<close> returns absent when the store has no entry
  at the effective key, and the converter's parse of the stored string when it has one; so
  a stored string that the converter cannot parse gives absent too, the same result as
  after the key has been removed. The store's contents are not changed.
\<close>

theorem getItem_absent_or_parsed:
  assumes "map_of (converters this) key = Some c"
  shows "fst (getItem this key w) =
           Inr (case contents w (storage this) (prefix this @ key) of
                  None \<Rightarrow> None | Some str \<Rightarrow> parse c str) \<and>
         (contents w (storage this) (prefix this @ key) = None \<longrightarrow>
            fst (getItem this key w) = Inr None) \<and>
         (\<forall>str. contents w (storage this) (prefix this @ key) = Some str \<longrightarrow>
            fst (getItem this key w) = Inr (parse c str)) \<and>
         (\<forall>str. contents w (storage this) (prefix this @ key) = Some str \<and> parse c str = None \<longrightarrow>
            fst (getItem this key w) = Inr None \<and>
            fst (getItem this key w) = fst (getItem this key (removeItem this key w))) \<and>
         contents (snd (getItem this key w)) = contents w"
  using assms by (simp add: getItem_eq removeItem_eq split: option.splits)

text \<open>
  The theorem at a boolean field whose key holds \<^verbatim>\<open>yes\<close>, and at the same field in
  the fresh world.
\<close>

theorem getItem_absent_or_parsed_witness:
  "fst (getItem flagStorage ''flag'' garbageWorld) = Inr None \<and>
   fst (getItem flagStorage ''flag'' freshWorld) = Inr None \<and>
   fst (getItem flagStorage ''flag'' garbageWorld) =
     fst (getItem flagStorage ''flag'' (removeItem flagStorage ''flag'' garbageWorld))"
proof -
  note g = getItem_absent_or_parsed [OF flagStorage_flag, of garbageWorld]
  note f = getItem_absent_or_parsed [OF flagStorage_flag, of freshWorld]
  from g garbage_flag parse_yes have
    "fst (getItem flagStorage ''flag'' garbageWorld) = Inr None \<and>
     fst (getItem flagStorage ''flag'' garbageWorld) =
       fst (getItem flagStorage ''flag'' (removeItem flagStorage ''flag'' garbageWorld))"
    by blast
  moreover from f fresh_flag have "fst (getItem flagStorage ''flag'' freshWorld) = Inr None"
    by blast
  ultimately show ?thesis by blast
qed

text \<open>
  C5. For a field of the schema, \<^verbatim>\<open>hasItem\<close> is true exactly when \<^verbatim>\<open>getItem\<close> returns
  a value that is not absent, and \<^verbatim>\<open>hasItem\<close> leaves the world that \<^verbatim>\<open>getItem\<close> leaves:
  the one call it makes on the store is the one read of \<^verbatim>\<open>getItem\<close> at the effective key.
\<close>

theorem hasItem_iff_getItem:
  assumes "map_of (converters this) key = Some c"
  shows "(\<exists>r. fst (getItem this key w) = Inr r \<and> fst (hasItem this key w) = Inr (r \<noteq> None)) \<and>
         snd (hasItem this key w) = snd (getItem this key w) \<and>
         calls (snd (hasItem this key w)) =
           calls w @ [(storage this, CallGetItem (prefix this @ key))] \<and>
         contents (snd (hasItem this key w)) = contents w"
  using assms by (simp add: getItem_eq hasItem_eq split: option.splits)

text \<open>The theorem at the boolean field whose key holds \<^verbatim>\<open>yes\<close>.\<close>

theorem hasItem_iff_getItem_witness:
  "fst (getItem flagStorage ''flag'' garbageWorld) = Inr None \<and>
   fst (hasItem flagStorage ''flag'' garbageWorld) = Inr False \<and>
   snd (hasItem flagStorage ''flag'' garbageWorld) = snd (getItem flagStorage ''flag'' garbageWorld) \<and>
   calls (snd (hasItem flagStorage ''flag'' garbageWorld)) = [(localStorage, CallGetItem ''p_flag'')]"
proof -
  from hasItem_iff_getItem [OF flagStorage_flag, of garbageWorld]
  obtain r where g: "fst (getItem flagStorage ''flag'' garbageWorld) = Inr r"
    and h: "fst (hasItem flagStorage ''flag'' garbageWorld) = Inr (r \<noteq> None)"
    and s: "snd (hasItem flagStorage ''flag'' garbageWorld) = snd (getItem flagStorage ''flag'' garbageWorld)"
    and c: "calls (snd (hasItem flagStorage ''flag'' garbageWorld)) =
           calls garbageWorld @ [(storage flagStorage, CallGetItem (prefix flagStorage @ ''flag''))]"
    by blast
  have "fst (getItem flagStorage ''flag'' garbageWorld) = Inr None"
    using flagStorage_flag garbage_flag parse_yes by (simp add: getItem_eq)
  with g have "r = None" by simp
  with g h s c show ?thesis
    by (simp add: garbageWorld_def freshWorld_def flagStorage_def)
qed

text \<open>
  C9. \<^verbatim>\<open>setItem\<close> and \<^verbatim>\<open>removeItem\<close> of a field change the contents of the stores at
  most at the field's effective key in the instance's own store: every other key of that
  store and every key of every other store holds what it held, so what any instance reads
  at another effective key is unchanged; the registry is not touched; and the one call
  made on the store is the write, or the removal, at the effective key.
\<close>

theorem setItem_removeItem_frame:
  "(\<forall>s k. (s, k) \<noteq> (storage this, prefix this @ f) \<longrightarrow>
      contents (snd (setItem this f v w)) s k = contents w s k \<and>
      contents (removeItem this f w) s k = contents w s k) \<and>
   takenKeys (snd (setItem this f v w)) = takenKeys w \<and>
   takenKeys (removeItem this f w) = takenKeys w \<and>
   (\<forall>that g. (storage that, prefix that @ g) \<noteq> (storage this, prefix this @ f) \<longrightarrow>
      fst (getItem that g (snd (setItem this f v w))) = fst (getItem that g w) \<and>
      fst (getItem that g (removeItem this f w)) = fst (getItem that g w)) \<and>
   (\<forall>c. map_of (converters this) f = Some c \<longrightarrow>
      calls (snd (setItem this f v w)) =
        calls w @ [(storage this, CallSetItem (prefix this @ f) (stringify c v))]) \<and>
   calls (removeItem this f w) = calls w @ [(storage this, CallRemoveItem (prefix this @ f))]"
  by (auto simp: setItem_def Storage_setItem_def removeItem_eq getItem_eq split: option.splits)

text \<open>
  The theorem at the boolean field, in a world whose store holds another key as well.
\<close>

theorem setItem_removeItem_frame_witness:
  "contents (snd (setItem flagStorage ''flag'' True garbageWorld)) localStorage ''other'' = Some ''x'' \<and>
   contents (removeItem flagStorage ''flag'' garbageWorld) localStorage ''other'' = Some ''x'' \<and>
   takenKeys (snd (setItem flagStorage ''flag'' True garbageWorld)) = takenKeys garbageWorld \<and>
   takenKeys (removeItem flagStorage ''flag'' garbageWorld) = takenKeys garbageWorld \<and>
   calls (snd (setItem flagStorage ''flag'' True garbageWorld)) = [(localStorage, CallSetItem ''p_flag'' ''1'')]"
proof -
  note t = setItem_removeItem_frame [of flagStorage "''flag''" True garbageWorld]
  have ne: "(localStorage, ''other'') \<noteq> (storage flagStorage, prefix flagStorage @ ''flag'')"
    by (simp add: flagStorage_def)
  have o: "contents garbageWorld localStorage ''other'' = Some ''x''"
    by (simp add: garbageWorld_def)
  from t ne have "contents (snd (setItem flagStorage ''flag'' True garbageWorld)) localStorage ''other'' =
      contents garbageWorld localStorage ''other'' \<and>
      contents (removeItem flagStorage ''flag'' garbageWorld) localStorage ''other'' =
      contents garbageWorld localStorage ''other''" by blast
  moreover from t have "takenKeys (snd (setItem flagStorage ''flag'' True garbageWorld)) = takenKeys garbageWorld \<and>
   takenKeys (removeItem flagStorage ''flag'' garbageWorld) = takenKeys garbageWorld" by blast
  moreover from t flagStorage_flag have "calls (snd (setItem flagStorage ''flag'' True garbageWorld)) =
        calls garbageWorld @ [(storage flagStorage, CallSetItem (prefix flagStorage @ ''flag'') (stringify booleanConverter True))]"
    by blast
  ultimately show ?thesis
    by (simp add: o) (simp add: garbageWorld_def freshWorld_def flagStorage_def booleanConverter_def)
qed

section \<open>The built-in converters\<close>

lemma digit_cases:
  "d < 10 \<Longrightarrow> d = 0 \<or> d = 1 \<or> d = 2 \<or> d = 3 \<or> d = 4 \<or> d = 5 \<or> d = 6 \<or> d = 7 \<or> d = 8 \<or> d = (9::nat)"
  by arith

lemma digitValue_digitChar: "d < 10 \<Longrightarrow> digitValue (digitChar d) = d"
  using digit_cases [of d] by (auto simp: digitValue_def digitChar_def)

lemma isDigit_digitChar: "d < 10 \<Longrightarrow> isDigit (digitChar d)"
  using digit_cases [of d] by (auto simp: isDigit_def digitChar_def)

lemma isDigit_plain: "isDigit c \<Longrightarrow> \<not> isWhiteSpace c \<and> c \<noteq> CHR ''+'' \<and> c \<noteq> CHR ''-''"
  by (auto simp: isDigit_def isWhiteSpace_def)

lemma decimal_digits: "\<forall>c\<in>set (decimal n). isDigit c"
proof (induction n rule: decimal.induct)
  case (1 n)
  show ?case
  proof (cases "n < 10")
    case True
    then show ?thesis by (subst decimal.simps) (simp add: isDigit_digitChar)
  next
    case False
    with 1 show ?thesis by (subst decimal.simps) (simp add: isDigit_digitChar)
  qed
qed

lemma decimal_not_empty: "decimal n \<noteq> []"
  by (subst decimal.simps) simp

lemma digitsValue_snoc: "digitsValue (Z @ [c]) = 10 * digitsValue Z + digitValue c"
  by (simp add: digitsValue_def)

lemma digitsValue_decimal: "digitsValue (decimal n) = n"
proof (induction n rule: decimal.induct)
  case (1 n)
  show ?case
  proof (cases "n < 10")
    case True
    then show ?thesis
      by (subst decimal.simps) (simp add: digitsValue_def digitValue_digitChar)
  next
    case False
    with 1 have "digitsValue (decimal (n div 10)) = n div 10" by simp
    with False show ?thesis
      by (subst decimal.simps) (simp add: digitsValue_snoc digitValue_digitChar)
  qed
qed

lemma takeWhile_decimal: "takeWhile isDigit (decimal n) = decimal n"
  using decimal_digits [of n] by (simp add: takeWhile_eq_all_conv)

lemma decimal_length: "n < 10 ^ Suc w \<Longrightarrow> length (decimal n) \<le> Suc w"
proof (induction w arbitrary: n)
  case 0
  then show ?case by (subst decimal.simps) simp
next
  case (Suc w)
  show ?case
  proof (cases "n < 10")
    case True
    then show ?thesis by (subst decimal.simps) simp
  next
    case False
    from Suc.prems have "n div 10 < 10 ^ Suc w" by simp
    then have "length (decimal (n div 10)) \<le> Suc w" by (rule Suc.IH)
    with False show ?thesis by (subst decimal.simps) simp
  qed
qed

lemma digitsValue_zeros: "digitsValue (replicate k (CHR ''0'') @ Z) = digitsValue Z"
proof -
  have "foldl (\<lambda>a c. 10 * a + digitValue c) 0 (replicate k (CHR ''0'')) = 0"
    by (induction k) (simp_all add: digitValue_def)
  then show ?thesis by (simp add: digitsValue_def)
qed

subsection \<open>Numbers\<close>

lemma Number_toString_simps [simp]:
  "Number_toString NaN = ''NaN''"
  "Number_toString PosInfinity = ''Infinity''"
  "Number_toString NegInfinity = ''-Infinity''"
  "Number_toString (Finite 0) = ''0''"
  by (simp_all add: Number_toString_def)

lemma pow10_pos: "0 < (10::rat) powi i"
  by (simp add: zero_less_power_int)

lemma pow10_add: "(10::rat) powi (i + j) = 10 powi i * 10 powi j"
  by (simp add: power_int_add)

lemma pow10_diff: "(10::rat) powi (i - j) = 10 powi i / 10 powi j"
  by (simp add: power_int_diff)

lemma pow10_nat: "(10::rat) powi int k = 10 ^ k"
  by (simp add: power_int_of_nat)

lemma pow10_mono: "i \<le> j \<Longrightarrow> (10::rat) powi i \<le> 10 powi j"
  by (rule power_int_increasing) simp_all

lemma pow2_pos: "0 < (2::rat) powi i"
  by (simp add: zero_less_power_int)

lemma pow2_mono: "i \<le> j \<Longrightarrow> (2::rat) powi i \<le> 2 powi j"
  by (rule power_int_increasing) simp_all

lemma roundHalfEven_nonneg: "0 \<le> q \<Longrightarrow> 0 \<le> roundHalfEven q"
proof -
  assume "0 \<le> q"
  then have "0 \<le> \<lfloor>q\<rfloor>" by simp
  then show ?thesis by (simp add: roundHalfEven_def Let_def)
qed

lemma roundHalfEven_of_int: "roundHalfEven (of_int i) = i"
  by (simp add: roundHalfEven_def)

lemma roundMagnitude_form:
  assumes "0 \<le> a"
  shows "\<exists>m e. roundMagnitude a = of_int m * 2 powi e \<and> - 1074 \<le> e \<and> 0 \<le> m"
proof -
  define e where "e = max (floorLog2 a - 52) (- 1074)"
  define m where "m = roundHalfEven (a / 2 powi e)"
  have "roundMagnitude a = of_int m * 2 powi e"
    by (simp add: roundMagnitude_def Let_def e_def m_def)
  moreover have "- 1074 \<le> e" by (simp add: e_def)
  moreover have "0 \<le> m"
    unfolding m_def using assms pow2_pos [of e] by (intro roundHalfEven_nonneg) simp
  ultimately show ?thesis by blast
qed

lemma NumberValueFor_nonzero:
  assumes "q \<noteq> 0" and "B = (of_int (2 ^ 1024) :: rat)"
  shows "NumberValueFor q =
     (if B \<le> roundMagnitude \<bar>q\<bar> then (if q < 0 then NegInfinity else PosInfinity)
      else Finite (if q < 0 then - roundMagnitude \<bar>q\<bar> else roundMagnitude \<bar>q\<bar>))"
  unfolding NumberValueFor_def Let_def assms(2) using assms(1) by (simp only: if_False)

lemma NumberValueFor_zero: "NumberValueFor 0 = Finite 0"
  by (simp add: NumberValueFor_def)

lemma NumberValueFor_Finite:
  assumes "NumberValueFor q = Finite r"
  shows "\<exists>m e. \<bar>r\<bar> = of_int m * 2 powi e \<and> - 1074 \<le> e \<and> 0 \<le> m \<and> \<bar>r\<bar> < 2 ^ 1024 \<and>
               (0 < q \<longrightarrow> 0 \<le> r) \<and> (q < 0 \<longrightarrow> r \<le> 0)"
proof (cases "q = 0")
  case True
  with assms have "r = 0" by (simp add: NumberValueFor_zero)
  then have "\<bar>r\<bar> = of_int 0 * 2 powi 0 \<and> - 1074 \<le> (0::int) \<and> 0 \<le> (0::int) \<and> \<bar>r\<bar> < 2 ^ 1024 \<and>
    (0 < q \<longrightarrow> 0 \<le> r) \<and> (q < 0 \<longrightarrow> r \<le> 0)"
    by simp
  then show ?thesis by blast
next
  case False
  define B :: rat where "B = of_int (2 ^ 1024)"
  define v where "v = roundMagnitude \<bar>q\<bar>"
  from roundMagnitude_form [of "\<bar>q\<bar>"] obtain m e
    where v: "v = of_int m * 2 powi e" and e: "- 1074 \<le> e" and m: "0 \<le> m"
    unfolding v_def by auto
  have v0: "0 \<le> v" unfolding v using m pow2_pos [of e] by simp
  from assms have "(if B \<le> v then (if q < 0 then NegInfinity else PosInfinity)
      else Finite (if q < 0 then - v else v)) = Finite r"
    unfolding NumberValueFor_nonzero [OF False B_def] v_def .
  then have r: "v < B" "r = (if q < 0 then - v else v)"
    by (simp_all split: if_splits)
  from r(2) v0 have a: "\<bar>r\<bar> = v" by (simp split: if_splits)
  have s: "(0 < q \<longrightarrow> 0 \<le> r) \<and> (q < 0 \<longrightarrow> r \<le> 0)" using r(2) v0 by (simp split: if_splits)
  have "B = 2 ^ 1024" by (simp add: B_def)
  with a v e m r(1) s show ?thesis by blast
qed

lemma NumberValueFor_minus:
  assumes "NumberValueFor q = Finite r"
  shows "NumberValueFor (- q) = Finite (- r)"
proof (cases "q = 0")
  case True
  with assms show ?thesis by (simp add: NumberValueFor_zero)
next
  case False
  define B :: rat where "B = of_int (2 ^ 1024)"
  define v where "v = roundMagnitude \<bar>q\<bar>"
  from assms have "(if B \<le> v then (if q < 0 then NegInfinity else PosInfinity)
      else Finite (if q < 0 then - v else v)) = Finite r"
    unfolding NumberValueFor_nonzero [OF False B_def] v_def .
  then have r: "\<not> B \<le> v" "r = (if q < 0 then - v else v)"
    by (simp_all split: if_splits)
  have nz: "- q \<noteq> 0" using False by simp
  have "NumberValueFor (- q) = Finite (if - q < 0 then - v else v)"
    unfolding NumberValueFor_nonzero [OF nz B_def] abs_minus_cancel v_def [symmetric]
    using r(1) by (simp only: if_False)
  with r(2) False show ?thesis by (cases "q < 0") simp_all
qed

lemma dyadic_decimal:
  fixes N :: nat
  assumes "- int N \<le> e"
  shows "\<exists>i. (of_int m * 2 powi e * 10 ^ N :: rat) = of_int i"
proof -
  define j where "j = nat (e + int N)"
  have ej: "e = int j - int N" using assms by (simp add: j_def)
  have p2: "(2::rat) powi e = 2 ^ j / 2 ^ N"
    unfolding ej by (simp add: power_int_diff power_int_of_nat)
  have ten: "(10::rat) ^ N = 2 ^ N * 5 ^ N"
  proof -
    have "(10::rat) = 2 * 5" by simp
    then have "(10::rat) ^ N = (2 * 5) ^ N" by (simp only:)
    then show ?thesis by (simp only: power_mult_distrib)
  qed
  have "(of_int m * 2 powi e * 10 ^ N :: rat) = of_int m * 2 ^ j * 5 ^ N"
    unfolding p2 ten by simp
  also have "\<dots> = of_int (m * 2 ^ j * 5 ^ N)" by simp
  finally show ?thesis by blast
qed

lemma number_positive:
  assumes "NumberValueFor x = Finite x" and "0 < x"
  shows "2 powi (- 1074) \<le> x" and "x < 2 ^ 1024" and "\<exists>i. x * 10 ^ 1074 = of_int i"
proof -
  from NumberValueFor_Finite [OF assms(1)] obtain m e
    where x: "\<bar>x\<bar> = of_int m * 2 powi e" and e: "- 1074 \<le> e" and b: "\<bar>x\<bar> < 2 ^ 1024" and m: "0 \<le> m"
    by blast
  from assms(2) have ax: "\<bar>x\<bar> = x" by simp
  from b show "x < 2 ^ 1024" unfolding ax .
  have m1: "1 \<le> m"
  proof (rule ccontr)
    assume "\<not> 1 \<le> m"
    with m have "m = 0" by simp
    with x ax assms(2) show False by simp
  qed
  have "2 powi (- 1074) \<le> (2::rat) powi e" using e by (rule pow2_mono)
  also have "\<dots> = of_int 1 * 2 powi e" by simp
  also have "\<dots> \<le> of_int m * 2 powi e"
    using m1 pow2_pos [of e] by (intro mult_right_mono) simp_all
  finally show "2 powi (- 1074) \<le> x" unfolding x [symmetric] ax .
  have "- int 1074 \<le> e" using e by simp
  from dyadic_decimal [OF this, of m] have "\<exists>i. \<bar>x\<bar> * 10 ^ 1074 = of_int i"
    unfolding x [symmetric] .
  then show "\<exists>i. x * 10 ^ 1074 = of_int i" unfolding ax .
qed

lemma scaleDown_correct:
  "x < 10 powi n \<Longrightarrow> 10 powi (n - 1 - int fuel) \<le> x \<Longrightarrow>
   10 powi (scaleDown x n fuel - 1) \<le> x \<and> x < 10 powi (scaleDown x n fuel)"
proof (induction fuel arbitrary: n)
  case 0
  then show ?case by (subst (1 2) scaleDown.simps) simp
next
  case (Suc fuel)
  show ?case
  proof (cases "10 powi (n - 1) \<le> x")
    case True
    with Suc.prems(1) show ?thesis by (subst (1 2) scaleDown.simps) simp
  next
    case False
    then have lt: "x < 10 powi (n - 1)" by simp
    have eq: "n - 1 - 1 - int fuel = n - 1 - int (Suc fuel)" by simp
    have "10 powi (n - 1 - 1 - int fuel) \<le> x" unfolding eq by (rule Suc.prems(2))
    from Suc.IH [OF lt this] False show ?thesis by (subst (1 2) scaleDown.simps) simp
  qed
qed

lemma scaleUp_correct:
  "10 powi (n - 1) \<le> x \<Longrightarrow> x < 10 powi (n + int fuel) \<Longrightarrow>
   10 powi (scaleUp x n fuel - 1) \<le> x \<and> x < 10 powi (scaleUp x n fuel)"
proof (induction fuel arbitrary: n)
  case 0
  then show ?case by (subst (1 2) scaleUp.simps) simp
next
  case (Suc fuel)
  show ?case
  proof (cases "x < 10 powi n")
    case True
    with Suc.prems(1) show ?thesis by (subst (1 2) scaleUp.simps) simp
  next
    case False
    then have ge: "10 powi (n + 1 - 1) \<le> x" by simp
    have eq: "n + 1 + int fuel = n + int (Suc fuel)" by simp
    have "x < 10 powi (n + 1 + int fuel)" unfolding eq by (rule Suc.prems(2))
    from Suc.IH [OF ge this] False show ?thesis by (subst (1 2) scaleUp.simps) simp
  qed
qed

lemma scaleUp_ge: "n \<le> scaleUp x n fuel"
proof (induction fuel arbitrary: n)
  case 0
  show ?case by (subst scaleUp.simps) simp
next
  case (Suc fuel)
  from Suc [of "n + 1"] show ?case by (subst scaleUp.simps) simp
qed

lemma pow10_le_pow2_neg: "(10::rat) powi (- int N) \<le> 2 powi (- int N)"
proof -
  have "(2::rat) ^ N \<le> 10 ^ N" by (rule power_mono) simp_all
  then have "inverse ((10::rat) ^ N) \<le> inverse (2 ^ N)"
    by (rule le_imp_inverse_le) simp
  then show ?thesis by (simp only: power_int_minus power_int_of_nat)
qed

lemma pow2_le_pow10: "(2::rat) ^ N \<le> 10 powi int N"
  unfolding power_int_of_nat by (rule power_mono) simp_all

lemma decimalExponent_correct:
  assumes "NumberValueFor x = Finite x" and "0 < x"
  shows "10 powi (decimalExponent x - 1) \<le> x" and "x < 10 powi (decimalExponent x)"
    and "- 1074 < decimalExponent x" and "1 \<le> x \<Longrightarrow> 1 \<le> decimalExponent x"
proof -
  have c: "- int 1074 = (- 1074 :: int)" by simp
  have lo: "10 powi (- int 1074) \<le> x"
    using pow10_le_pow2_neg [of 1074] number_positive(1) [OF assms] unfolding c by (rule order_trans)
  have hi: "x < 10 powi int 1024"
    using number_positive(2) [OF assms] pow2_le_pow10 [of 1024] by (rule less_le_trans)
  have r: "10 powi (decimalExponent x - 1) \<le> x \<and> x < 10 powi (decimalExponent x)"
  proof (cases "x < 1")
    case True
    then have a: "x < 10 powi 0" by simp
    have "(0::int) - 1 - int 1100 \<le> - int 1074" by simp
    then have "(10::rat) powi (0 - 1 - int 1100) \<le> 10 powi (- int 1074)" by (rule pow10_mono)
    then have b: "10 powi (0 - 1 - int 1100) \<le> x" using lo by (rule order_trans)
    from scaleDown_correct [OF a b] True show ?thesis by (simp only: decimalExponent_def if_True)
  next
    case False
    then have a: "10 powi (1 - 1) \<le> x" by simp
    have "int 1024 \<le> 1 + int 1100" by simp
    then have "(10::rat) powi int 1024 \<le> 10 powi (1 + int 1100)" by (rule pow10_mono)
    with hi have b: "x < 10 powi (1 + int 1100)" by (rule less_le_trans)
    from scaleUp_correct [OF a b] False show ?thesis by (simp only: decimalExponent_def if_False)
  qed
  then show "10 powi (decimalExponent x - 1) \<le> x" and u: "x < 10 powi (decimalExponent x)"
    by simp_all
  show "- 1074 < decimalExponent x"
  proof (rule ccontr)
    assume "\<not> - 1074 < decimalExponent x"
    then have "decimalExponent x \<le> - int 1074" by simp
    then have "(10::rat) powi decimalExponent x \<le> 10 powi (- int 1074)" by (rule pow10_mono)
    with u have "x < 10 powi (- int 1074)" by (rule less_le_trans)
    then have "\<not> 10 powi (- int 1074) \<le> x" by (simp only: not_le)
    from this lo show False by (rule notE)
  qed
  show "1 \<le> decimalExponent x" if "1 \<le> x"
  proof -
    from that have "decimalExponent x = scaleUp x 1 1100" by (simp add: decimalExponent_def)
    then show ?thesis using scaleUp_ge [of 1 x 1100] by simp
  qed
qed

lemma floor_range:
  fixes x :: rat
  assumes "10 powi (n - 1) \<le> x" and "x < 10 powi n" and "0 < k"
  shows "10 ^ (k - 1) \<le> \<lfloor>x / 10 powi (n - int k)\<rfloor>" and "\<lfloor>x / 10 powi (n - int k)\<rfloor> < 10 ^ k"
proof -
  define scale :: rat where "scale = 10 powi (n - int k)"
  have sp: "0 < scale" unfolding scale_def by (rule pow10_pos)
  have e1: "n - 1 - (n - int k) = int (k - 1)" using assms(3) by simp
  have e2: "n - (n - int k) = int k" by simp
  have l: "10 powi (n - 1) / scale = 10 ^ (k - 1)"
    unfolding scale_def pow10_diff [symmetric] e1 by (rule pow10_nat)
  have u: "10 powi n / scale = 10 ^ k"
    unfolding scale_def pow10_diff [symmetric] e2 by (rule pow10_nat)
  have oi: "(of_int (10 ^ j) :: rat) = 10 ^ j" for j by simp
  have "10 powi (n - 1) / scale \<le> x / scale"
    by (rule divide_right_mono [OF assms(1) less_imp_le [OF sp]])
  then have "of_int (10 ^ (k - 1)) \<le> x / scale" unfolding l oi .
  then show "10 ^ (k - 1) \<le> \<lfloor>x / 10 powi (n - int k)\<rfloor>"
    unfolding scale_def by (simp only: le_floor_iff)
  have "x / scale < 10 powi n / scale"
    by (rule divide_strict_right_mono [OF assms(2) sp])
  then have "x / scale < of_int (10 ^ k)" unfolding u oi .
  then show "\<lfloor>x / 10 powi (n - int k)\<rfloor> < 10 ^ k"
    unfolding scale_def by (simp only: floor_less_iff)
qed

lemma candidate_valid:
  assumes "10 powi (n - 1) \<le> x" and "x < 10 powi n" and "0 < k"
    and "candidate x n k = Some r"
  shows "validDigits x r \<and> fst (snd r) = k \<and> n \<le> fst r \<and> fst r \<le> n + 1"
proof -
  define scale :: rat where "scale = 10 powi (n - int k)"
  define lo where "lo = \<lfloor>x / scale\<rfloor>"
  define hi where "hi = lo + 1"
  define useHi where "useHi = (NumberValueFor (of_int hi * scale) = Finite x \<and>
     (NumberValueFor (of_int lo * scale) \<noteq> Finite x \<or>
      of_int hi * scale - x < x - of_int lo * scale \<or>
      (of_int hi * scale - x = x - of_int lo * scale \<and> even hi)))"
  have lo: "10 ^ (k - 1) \<le> lo" "lo < 10 ^ k"
    unfolding lo_def scale_def using assms(1-3) by (rule floor_range)+
  have c: "candidate x n k =
      (if useHi then Some (if hi = 10 ^ k then (n + 1, k, 10 ^ (k - 1)) else (n, k, hi))
       else if NumberValueFor (of_int lo * scale) = Finite x then Some (n, k, lo) else None)"
    by (simp add: candidate_def Let_def useHi_def hi_def lo_def scale_def)
  have k1: "1 \<le> k" using assms(3) by simp
  show ?thesis
  proof (cases useHi)
    case True
    then have okHi: "NumberValueFor (of_int hi * scale) = Finite x" by (simp add: useHi_def)
    show ?thesis
    proof (cases "hi = 10 ^ k")
      case True
      have "(of_int (10 ^ (k - 1)) :: rat) * 10 powi (n + 1 - int k) =
          10 powi int (k - 1) * 10 powi (n + 1 - int k)"
        by (simp add: pow10_nat)
      also have "\<dots> = 10 powi (int (k - 1) + (n + 1 - int k))" by (simp only: pow10_add)
      also have "int (k - 1) + (n + 1 - int k) = int k + (n - int k)" using assms(3) by simp
      also have "(10::rat) powi (int k + (n - int k)) = 10 powi int k * 10 powi (n - int k)"
        by (simp only: pow10_add)
      also have "\<dots> = of_int hi * scale" by (simp add: True pow10_nat scale_def)
      finally have v: "NumberValueFor (of_int (10 ^ (k - 1)) * 10 powi (n + 1 - int k)) = Finite x"
        using okHi by simp
      have "(10::int) ^ (k - 1) < 10 ^ k" using assms(3) by (intro power_strict_increasing) simp_all
      with v k1 have "validDigits x (n + 1, k, 10 ^ (k - 1))" by (simp add: validDigits_def)
      moreover from assms(4) \<open>useHi\<close> True have "r = (n + 1, k, 10 ^ (k - 1))" by (simp add: c)
      ultimately show ?thesis by simp
    next
      case False
      with lo have "10 ^ (k - 1) \<le> hi" "hi < 10 ^ k" by (simp_all add: hi_def)
      with okHi k1 have "validDigits x (n, k, hi)" by (simp add: validDigits_def scale_def)
      moreover from assms(4) \<open>useHi\<close> False have "r = (n, k, hi)" by (simp add: c)
      ultimately show ?thesis by simp
    qed
  next
    case False
    with assms(4) have ok: "NumberValueFor (of_int lo * scale) = Finite x" and r: "r = (n, k, lo)"
      by (simp_all add: c split: if_splits)
    from ok lo k1 have "validDigits x (n, k, lo)" by (simp add: validDigits_def scale_def)
    with r show ?thesis by simp
  qed
qed

lemma candidate_exact:
  assumes "NumberValueFor x = Finite x" and "of_int \<lfloor>x / 10 powi (n - int k)\<rfloor> * 10 powi (n - int k) = x"
  shows "candidate x n k \<noteq> None"
  using assms by (simp add: candidate_def Let_def)

lemma shortest_valid:
  assumes "10 powi (n - 1) \<le> x" and "x < 10 powi n"
  shows "candidate x n K \<noteq> None \<Longrightarrow> k \<le> K \<Longrightarrow> K < k + fuel \<Longrightarrow> 0 < k \<Longrightarrow>
         validDigits x (shortest x n k fuel) \<and> fst (snd (shortest x n k fuel)) \<le> K \<and>
         n \<le> fst (shortest x n k fuel) \<and> fst (shortest x n k fuel) \<le> n + 1"
proof (induction fuel arbitrary: k)
  case 0
  then show ?case by simp
next
  case (Suc fuel)
  show ?case
  proof (cases "candidate x n k")
    case (Some r)
    from candidate_valid [OF assms Suc.prems(4) Some] Suc.prems(2)
    have "validDigits x r \<and> fst (snd r) \<le> K \<and> n \<le> fst r \<and> fst r \<le> n + 1" by simp
    moreover have "shortest x n k (Suc fuel) = r" by (subst shortest.simps) (simp add: Some)
    ultimately show ?thesis by simp
  next
    case None
    with Suc.prems(1) have "k \<noteq> K" by auto
    with Suc.prems(2,3) have a: "k + 1 \<le> K" "K < k + 1 + fuel" by simp_all
    have "shortest x n k (Suc fuel) = shortest x n (k + 1) fuel"
      by (subst shortest.simps) (simp add: None)
    with Suc.IH [OF Suc.prems(1) a] show ?thesis by simp
  qed
qed

lemma exact_scale:
  fixes x :: rat
  assumes "x * 10 ^ N = of_int i"
  shows "of_int \<lfloor>x / 10 powi (- int N)\<rfloor> * 10 powi (- int N) = x"
proof -
  have p: "(10::rat) powi (- int N) = inverse (10 ^ N)"
    by (simp only: power_int_minus power_int_of_nat)
  have f: "x / inverse (10 ^ N) = of_int i" using assms by (simp add: divide_inverse)
  have "of_int i * inverse ((10::rat) ^ N) = x * 10 ^ N * inverse (10 ^ N)"
    unfolding assms ..
  also have "\<dots> = x" by simp
  finally have "of_int \<lfloor>x / inverse (10 ^ N)\<rfloor> * inverse ((10::rat) ^ N) = x"
    unfolding f floor_of_int .
  then show ?thesis unfolding p .
qed

lemma digitsOf_valid:
  assumes "NumberValueFor x = Finite x" and "0 < x"
  shows "validDigits x (digitsOf x) \<and> decimalExponent x \<le> fst (digitsOf x) \<and>
         fst (digitsOf x) \<le> decimalExponent x + 1"
proof -
  define n where "n = decimalExponent x"
  define K where "K = nat (n + 1074)"
  have n: "10 powi (n - 1) \<le> x" "x < 10 powi n" "- 1074 < n"
    unfolding n_def by (rule decimalExponent_correct [OF assms])+
  have e: "n - int K = - int 1074" using n(3) by (simp add: K_def)
  from number_positive(3) [OF assms] obtain i where "x * 10 ^ 1074 = of_int i" by blast
  then have "of_int \<lfloor>x / 10 powi (- int 1074)\<rfloor> * 10 powi (- int 1074) = x"
    by (rule exact_scale)
  then have "of_int \<lfloor>x / 10 powi (n - int K)\<rfloor> * 10 powi (n - int K) = x"
    unfolding e .
  with assms(1) have c: "candidate x n K \<noteq> None" by (rule candidate_exact)
  have k: "1 \<le> K" "K < 1 + K" "0 < (1::nat)" using n(3) by (simp_all add: K_def)
  from shortest_valid [OF n(1,2) c k]
  have "validDigits x (shortest x n 1 K) \<and> n \<le> fst (shortest x n 1 K) \<and>
      fst (shortest x n 1 K) \<le> n + 1" by simp
  then show ?thesis
    unfolding digitsOf_def Let_def n_def [symmetric] K_def [symmetric] .
qed

lemma digitsOf_integer:
  assumes "NumberValueFor (of_int i) = Finite (of_int i)" and "0 < i"
  shows "int (fst (snd (digitsOf (of_int i)))) \<le> decimalExponent (of_int i)"
proof -
  define x :: rat where "x = of_int i"
  define n where "n = decimalExponent x"
  define K where "K = nat (n + 1074)"
  have x: "NumberValueFor x = Finite x" "0 < x" "1 \<le> x"
    using assms by (simp_all add: x_def)
  have n: "10 powi (n - 1) \<le> x" "x < 10 powi n" "- 1074 < n"
    unfolding n_def by (rule decimalExponent_correct [OF x(1,2)])+
  have n1: "1 \<le> n" unfolding n_def using x(3) by (rule decimalExponent_correct(4) [OF x(1,2)])
  have e: "n - int (nat n) = 0" using n1 by simp
  have "of_int \<lfloor>x / 10 powi (n - int (nat n))\<rfloor> * 10 powi (n - int (nat n)) = x"
    unfolding e by (simp add: x_def)
  with x(1) have c: "candidate x n (nat n) \<noteq> None" by (rule candidate_exact)
  have k: "1 \<le> nat n" "nat n < 1 + K" "0 < (1::nat)" using n1 by (simp_all add: K_def)
  from shortest_valid [OF n(1,2) c k]
  have "fst (snd (shortest x n 1 K)) \<le> nat n" by simp
  then have "int (fst (snd (shortest x n 1 K))) \<le> n" using n1 by simp
  then show ?thesis
    unfolding digitsOf_def Let_def x_def [symmetric] n_def [symmetric] K_def [symmetric] .
qed

lemma decimal_length_ge: "10 ^ w \<le> n \<Longrightarrow> w < length (decimal n)"
proof (induction w arbitrary: n)
  case 0
  show ?case using decimal_not_empty [of n] by (cases "decimal n") simp_all
next
  case (Suc w)
  have "(1::nat) \<le> 10 ^ w" by simp
  moreover from Suc.prems have "10 * 10 ^ w \<le> n" by simp
  ultimately have n: "\<not> n < 10" by linarith
  from Suc.prems have "10 ^ w \<le> n div 10" by simp
  then have "w < length (decimal (n div 10))" by (rule Suc.IH)
  with n show ?case by (subst decimal.simps) simp
qed

lemma digitsValue_append:
  "digitsValue (A @ B) = digitsValue A * 10 ^ length B + digitsValue B"
proof -
  define f where "f = (\<lambda>a c. 10 * a + digitValue c)"
  have step: "f a c = 10 * a + digitValue c" for a c by (simp add: f_def)
  have "foldl f a B = a * 10 ^ length B + foldl f 0 B" for a
  proof (induction B arbitrary: a rule: rev_induct)
    case Nil
    show ?case by simp
  next
    case (snoc c B)
    have e: "foldl f b (B @ [c]) = 10 * foldl f b B + digitValue c" for b
    proof -
      have "foldl f b (B @ [c]) = f (foldl f b B) c" by simp
      then show ?thesis by (simp only: step)
    qed
    have "foldl f a (B @ [c]) = 10 * (a * 10 ^ length B + foldl f 0 B) + digitValue c"
      unfolding e by (simp only: snoc [of a])
    also have "\<dots> = a * 10 ^ length (B @ [c]) + (10 * foldl f 0 B + digitValue c)"
      by (simp add: algebra_simps)
    finally show ?case unfolding e [of 0] .
  qed
  from this [of "digitsValue A"] show ?thesis by (simp add: digitsValue_def f_def)
qed

lemma digitsValue_append_zeros:
  "digitsValue (A @ replicate z (CHR ''0'')) = digitsValue A * 10 ^ z"
  using digitsValue_append [of A "replicate z (CHR ''0'')"] digitsValue_zeros [of z "[]"]
  by (simp add: digitsValue_def)

lemma isDigit_zero: "isDigit (CHR ''0'')"
  by (simp add: isDigit_def)

lemma not_digit:
  "\<not> isDigit (CHR ''.'')" "\<not> isDigit (CHR ''e'')" "\<not> isDigit (CHR ''+'')"
  "\<not> isDigit (CHR ''-'')" "\<not> isDigit (CHR ''I'')"
  by (simp_all add: isDigit_def)

lemma span_digits:
  assumes "\<forall>c\<in>set A. isDigit c" and "r = [] \<or> \<not> isDigit (hd r)"
  shows "takeWhile isDigit (A @ r) = A" and "dropWhile isDigit (A @ r) = r"
proof -
  have t: "takeWhile isDigit r = []" and d: "dropWhile isDigit r = r"
    using assms(2) by (cases r; simp)+
  show "takeWhile isDigit (A @ r) = A"
    using assms(1) t by (simp add: takeWhile_append2)
  show "dropWhile isDigit (A @ r) = r"
    using assms(1) d by (simp add: dropWhile_append2)
qed

text \<open>The digits of a valid triple.\<close>

lemma valid_digits:
  assumes "validDigits x (n, k, s)"
  shows "length (decimal (nat s)) = k" and "\<forall>c\<in>set (decimal (nat s)). isDigit c"
    and "digitsValue (decimal (nat s)) = nat s" and "0 < s" and "0 < k"
    and "int (nat s) = s"
proof -
  from assms have k: "1 \<le> k" and lo: "10 ^ (k - 1) \<le> s" and hi: "s < 10 ^ k"
    by (simp_all add: validDigits_def)
  have "(0::int) < 10 ^ (k - 1)" by simp
  then show s: "0 < s" using lo by (rule less_le_trans)
  from k show "0 < k" by simp
  from s show "int (nat s) = s" by simp
  from k obtain w where w: "k = Suc w" by (cases k) simp_all
  have "int (nat s) < int (10 ^ k)" using hi s by simp
  then have "nat s < 10 ^ Suc w" unfolding w by (simp only: of_nat_less_iff)
  then have a: "length (decimal (nat s)) \<le> Suc w" by (rule decimal_length)
  have "int (10 ^ w) \<le> int (nat s)" using lo s by (simp add: w)
  then have "10 ^ w \<le> nat s" by (simp only: of_nat_le_iff)
  then have "w < length (decimal (nat s))" by (rule decimal_length_ge)
  with a show "length (decimal (nat s)) = k" by (simp add: w)
  show "\<forall>c\<in>set (decimal (nat s)). isDigit c" by (rule decimal_digits)
  show "digitsValue (decimal (nat s)) = nat s" by (rule digitsValue_decimal)
qed

lemma exponentPart_simps:
  "exponentPart [] = 0"
  "exponentPart (CHR ''e'' # CHR ''+'' # decimal X) = int X"
  "exponentPart (CHR ''e'' # CHR ''-'' # decimal X) = - int X"
  using decimal_not_empty [of X]
  by (simp_all add: exponentPart_def takeWhile_decimal digitsValue_decimal)

lemma unsigned_plain:
  assumes "\<forall>c\<in>set A. isDigit c" and "A \<noteq> []"
    and "r = [] \<or> (\<not> isDigit (hd r) \<and> hd r \<noteq> CHR ''.'')"
  shows "unsignedDecimal (A @ r) = Some (of_nat (digitsValue A) * 10 powi exponentPart r)"
proof -
  have r: "r = [] \<or> \<not> isDigit (hd r)" using assms(3) by blast
  have n: "\<not> (r \<noteq> [] \<and> hd r = CHR ''.'')" using assms(3) by blast
  show ?thesis
    unfolding unsignedDecimal_def Let_def span_digits [OF assms(1) r]
    using n assms(2) by auto
qed

lemma unsigned_point:
  assumes "\<forall>c\<in>set A. isDigit c" and "A \<noteq> []" and "\<forall>c\<in>set B. isDigit c"
    and "r = [] \<or> \<not> isDigit (hd r)"
  shows "unsignedDecimal (A @ CHR ''.'' # B @ r) =
         Some ((of_nat (digitsValue A) + of_nat (digitsValue B) / 10 ^ length B) * 10 powi exponentPart r)"
proof -
  have p: "CHR ''.'' # B @ r = [] \<or> \<not> isDigit (hd (CHR ''.'' # B @ r))"
    by (simp add: not_digit)
  show ?thesis
    unfolding unsignedDecimal_def Let_def span_digits [OF assms(1) p]
    using assms(2) by (simp add: span_digits [OF assms(3,4)])
qed

lemma split_value:
  fixes a b :: nat
  shows "(of_nat a + of_nat b / 10 ^ m :: rat) = of_nat (a * 10 ^ m + b) * 10 powi (- int m)"
  by (simp add: power_int_minus field_simps)

lemma pow10_shift: "q * (10::rat) powi i * 10 powi j = q * 10 powi (i + j)"
  by (simp add: pow10_add)

lemma unsignedDecimal_formatDigits:
  assumes "validDigits x (n, k, s)"
  shows "unsignedDecimal (formatDigits n k s) = Some (of_int s * 10 powi (n - int k))"
proof -
  define ds where "ds = decimal (nat s)"
  note v = valid_digits [OF assms, folded ds_def]
  have ne: "ds \<noteq> []" using v(1,5) by auto
  have s: "(of_nat (nat s) :: rat) = of_int s" using v(4) by simp
  consider (a) "- 5 \<le> n" "n \<le> 21" "int k \<le> n"
    | (b) "- 5 \<le> n" "n \<le> 21" "n < int k" "0 < n"
    | (c) "- 5 \<le> n" "n \<le> 21" "n < int k" "n \<le> 0"
    | (d) "\<not> (- 5 \<le> n \<and> n \<le> 21)" "k = 1"
    | (e) "\<not> (- 5 \<le> n \<and> n \<le> 21)" "k \<noteq> 1"
    by linarith
  then show ?thesis
  proof cases
    case a
    define z where "z = nat (n - int k)"
    have f: "formatDigits n k s = (ds @ replicate z (CHR ''0'')) @ []"
      using a by (simp add: formatDigits_def Let_def ds_def z_def)
    have d: "\<forall>c\<in>set (ds @ replicate z (CHR ''0'')). isDigit c"
      using v(2) by (auto simp: isDigit_zero)
    have "unsignedDecimal (formatDigits n k s) =
        Some (of_nat (digitsValue (ds @ replicate z (CHR ''0''))) * 10 powi exponentPart [])"
      unfolding f by (rule unsigned_plain [OF d]) (use ne in simp_all)
    also have "of_nat (digitsValue (ds @ replicate z (CHR ''0''))) = (of_int s :: rat) * 10 ^ z"
      by (simp add: digitsValue_append_zeros v(3) s)
    also have "(10::rat) ^ z = 10 powi (n - int k)"
      using a(3) by (simp add: z_def pow10_nat [symmetric])
    finally show ?thesis by (simp add: exponentPart_simps)
  next
    case b
    define A where "A = take (nat n) ds"
    define B where "B = drop (nat n) ds"
    have ab: "A @ B = ds" by (simp add: A_def B_def)
    have lb: "int (length B) = int k - n" using b v(1) by (simp add: B_def)
    have f: "formatDigits n k s = A @ CHR ''.'' # B @ []"
      using b by (simp add: formatDigits_def Let_def ds_def A_def B_def)
    have dA: "\<forall>c\<in>set A. isDigit c" using v(2) ab by (metis Un_iff set_append)
    have dB: "\<forall>c\<in>set B. isDigit c" using v(2) ab by (metis Un_iff set_append)
    have neA: "A \<noteq> []" using b v(1) by (auto simp: A_def)
    have val: "digitsValue A * 10 ^ length B + digitsValue B = nat s"
      using digitsValue_append [of A B] by (simp add: ab v(3))
    have "unsignedDecimal (formatDigits n k s) =
        Some ((of_nat (digitsValue A) + of_nat (digitsValue B) / 10 ^ length B) * 10 powi exponentPart [])"
      unfolding f by (rule unsigned_point [OF dA neA dB]) simp
    also have "(of_nat (digitsValue A) + of_nat (digitsValue B) / 10 ^ length B :: rat) =
        of_int s * 10 powi (- int (length B))"
      unfolding split_value val s ..
    also have "- int (length B) = n - int k" using lb by simp
    finally show ?thesis by (simp add: exponentPart_simps)
  next
    case c
    define z where "z = nat (- n)"
    define B where "B = replicate z (CHR ''0'') @ ds"
    have lb: "- int (length B) = n - int k" using c v(1) by (simp add: B_def z_def)
    have f: "formatDigits n k s = ''0'' @ CHR ''.'' # B @ []"
      using c by (simp add: formatDigits_def Let_def ds_def B_def z_def)
    have dB: "\<forall>c\<in>set B. isDigit c" using v(2) by (auto simp: B_def isDigit_zero)
    have dv: "digitsValue B = nat s" by (simp add: B_def digitsValue_zeros v(3))
    have z: "digitsValue ''0'' = 0" by (simp add: digitsValue_def digitValue_def)
    have "unsignedDecimal (formatDigits n k s) =
        Some ((of_nat (digitsValue ''0'') + of_nat (digitsValue B) / 10 ^ length B) * 10 powi exponentPart [])"
      unfolding f by (rule unsigned_point [OF _ _ dB]) (simp_all add: isDigit_zero)
    also have "(of_nat (digitsValue ''0'') + of_nat (digitsValue B) / 10 ^ length B :: rat) =
        of_int s * 10 powi (- int (length B))"
      unfolding split_value z dv by (simp add: s)
    finally show ?thesis unfolding lb by (simp add: exponentPart_simps)
  next
    case d
    define X where "X = nat \<bar>n - 1\<bar>"
    define sg where "sg = (if n < 0 then CHR ''-'' else CHR ''+'')"
    have f: "formatDigits n k s = ds @ CHR ''e'' # sg # decimal X"
      using d by (auto simp add: formatDigits_def Let_def ds_def X_def sg_def)
    have ex: "exponentPart (CHR ''e'' # sg # decimal X) = n - 1"
      using d(1) by (auto simp: sg_def exponentPart_simps X_def)
    have "unsignedDecimal (formatDigits n k s) =
        Some (of_nat (digitsValue ds) * 10 powi exponentPart (CHR ''e'' # sg # decimal X))"
      unfolding f by (rule unsigned_plain [OF v(2) ne]) (simp add: not_digit)
    then show ?thesis unfolding ex v(3) s using d(2) by simp
  next
    case e
    define X where "X = nat \<bar>n - 1\<bar>"
    define sg where "sg = (if n < 0 then CHR ''-'' else CHR ''+'')"
    define t where "t = CHR ''e'' # sg # decimal X"
    obtain c B where ds: "ds = c # B" using ne by (cases ds) simp_all
    have lb: "int (length B) = int k - 1" using v(1) by (simp add: ds)
    have f: "formatDigits n k s = [c] @ CHR ''.'' # B @ t"
      using e by (auto simp add: formatDigits_def Let_def ds_def [symmetric] ds X_def sg_def t_def)
    have ex: "exponentPart t = n - 1"
      using e(1) by (auto simp: t_def sg_def exponentPart_simps X_def)
    have dA: "\<forall>a\<in>set [c]. isDigit a" and dB: "\<forall>c\<in>set B. isDigit c"
      using v(2) by (simp_all add: ds)
    have val: "digitsValue [c] * 10 ^ length B + digitsValue B = nat s"
      using digitsValue_append [of "[c]" B] by (simp add: ds [symmetric] v(3))
    have "unsignedDecimal (formatDigits n k s) =
        Some ((of_nat (digitsValue [c]) + of_nat (digitsValue B) / 10 ^ length B) * 10 powi exponentPart t)"
      unfolding f by (rule unsigned_point [OF dA _ dB]) (simp_all add: t_def not_digit)
    also have "(of_nat (digitsValue [c]) + of_nat (digitsValue B) / 10 ^ length B :: rat) =
        of_int s * 10 powi (- int (length B))"
      unfolding split_value val s ..
    finally have "unsignedDecimal (formatDigits n k s) =
        Some (of_int s * 10 powi (- int (length B) + (n - 1)))"
      unfolding ex pow10_shift .
    moreover have "- int (length B) + (n - 1) = n - int k" using lb by simp
    ultimately show ?thesis by (simp only:)
  qed
qed

lemma formatDigits_head:
  assumes "validDigits x (n, k, s)"
  shows "formatDigits n k s \<noteq> [] \<and> isDigit (hd (formatDigits n k s))"
proof -
  define ds where "ds = decimal (nat s)"
  note v = valid_digits [OF assms, folded ds_def]
  obtain c B where ds: "ds = c # B" using v(1,5) by (cases ds) auto
  have c: "isDigit c" using v(2) by (simp add: ds)
  have "0 < n \<Longrightarrow> take (nat n) (c # B) = c # take (nat n - 1) B"
    by (cases "nat n") simp_all
  then show ?thesis
    using c by (simp add: formatDigits_def Let_def ds_def [symmetric] ds isDigit_zero Let_def)
qed

lemma parseFloat_digits:
  assumes "str \<noteq> []" and "isDigit (hd str)"
  shows "parseFloat str = (case unsignedDecimal str of None \<Rightarrow> NaN | Some mv \<Rightarrow> NumberValueFor mv)"
    and "parseFloat (CHR ''-'' # str) =
         (case unsignedDecimal str of None \<Rightarrow> NaN | Some mv \<Rightarrow> NumberValueFor (- mv))"
proof -
  obtain c cs where str: "str = c # cs" using assms(1) by (cases str) simp_all
  have c: "isDigit c" using assms(2) by (simp add: str)
  have p: "\<not> isWhiteSpace c" "c \<noteq> CHR ''+''" "c \<noteq> CHR ''-''" using isDigit_plain [OF c] by simp_all
  have i: "c \<noteq> CHR ''I''" using c not_digit(5) by auto
  have m: "\<not> isWhiteSpace (CHR ''-'')" by (simp add: isWhiteSpace_def)
  show "parseFloat str = (case unsignedDecimal str of None \<Rightarrow> NaN | Some mv \<Rightarrow> NumberValueFor mv)"
    using p i by (simp add: parseFloat_def str Let_def split: option.splits)
  show "parseFloat (CHR ''-'' # str) =
      (case unsignedDecimal str of None \<Rightarrow> NaN | Some mv \<Rightarrow> NumberValueFor (- mv))"
    using p i m by (simp add: parseFloat_def str Let_def split: option.splits)
qed

lemma parseInt10_digits:
  assumes "\<forall>c\<in>set A. isDigit c" and "A \<noteq> []"
  shows "parseInt10 A = NumberValueFor (of_nat (digitsValue A))"
    and "parseInt10 (CHR ''-'' # A) = NumberValueFor (- of_nat (digitsValue A))"
proof -
  obtain c cs where A: "A = c # cs" using assms(2) by (cases A) simp_all
  have c: "isDigit c" using assms(1) by (simp add: A)
  have p: "\<not> isWhiteSpace c" "c \<noteq> CHR ''+''" "c \<noteq> CHR ''-''" using isDigit_plain [OF c] by simp_all
  have m: "\<not> isWhiteSpace (CHR ''-'')" by (simp add: isWhiteSpace_def)
  have t: "takeWhile isDigit A = A" using assms(1) by (simp add: takeWhile_eq_all_conv)
  show "parseInt10 A = NumberValueFor (of_nat (digitsValue A))"
    using p t by (simp add: parseInt10_def A Let_def)
  show "parseInt10 (CHR ''-'' # A) = NumberValueFor (- of_nat (digitsValue A))"
    using p m t by (simp add: parseInt10_def A Let_def)
qed

lemma bitLength_le: "i < 2 ^ w \<Longrightarrow> bitLength i \<le> w"
proof (induction w arbitrary: i)
  case 0
  then show ?case by (subst bitLength.simps) simp
next
  case (Suc w)
  show ?case
  proof (cases "i \<le> 0")
    case True
    then show ?thesis by (subst bitLength.simps) simp
  next
    case False
    from Suc.prems have "i div 2 < 2 ^ w" by simp
    then have "bitLength (i div 2) \<le> w" by (rule Suc.IH)
    with False show ?thesis by (subst bitLength.simps) simp
  qed
qed

lemma bitLength_pos: "0 < i \<Longrightarrow> 0 < bitLength i"
  by (subst bitLength.simps) simp

lemma bitLength_one: "bitLength 1 = 1"
  by (subst bitLength.simps, subst bitLength.simps) simp

lemma floorLog2_integer:
  assumes "0 < i" and "i < 2 ^ 53"
  shows "- 1 \<le> floorLog2 (of_int i)" and "floorLog2 (of_int i) \<le> 52"
proof -
  define c where "c = int (bitLength i) - int (bitLength 1)"
  have c: "0 \<le> c" "c \<le> 52"
    using bitLength_le [OF assms(2)] bitLength_pos [OF assms(1)] by (simp_all add: c_def bitLength_one)
  have "floorLog2 (of_int i) = (if 2 powi c \<le> (of_int i :: rat) then c else c - 1)"
    by (simp add: floorLog2_def c_def Let_def)
  with c show "- 1 \<le> floorLog2 (of_int i)" and "floorLog2 (of_int i) \<le> 52"
    by (simp_all split: if_splits)
qed

lemma roundMagnitude_integer:
  assumes "0 < i" and "i < 2 ^ 53"
  shows "roundMagnitude (of_int i) = of_int i"
proof -
  define L where "L = floorLog2 (of_int i)"
  define j where "j = nat (52 - L)"
  have L: "- 1 \<le> L" "L \<le> 52" unfolding L_def by (rule floorLog2_integer [OF assms])+
  have e: "max (L - 52) (- 1074) = - int j" using L by (simp add: j_def)
  have p: "(2::rat) powi (- int j) = inverse (2 ^ j)"
    by (simp only: power_int_minus power_int_of_nat)
  have "(of_int i :: rat) / inverse (2 ^ j) = of_int (i * 2 ^ j)" by (simp add: divide_inverse)
  then have "roundHalfEven (of_int i / inverse (2 ^ j)) = i * 2 ^ j"
    by (simp only: roundHalfEven_of_int)
  then have "roundMagnitude (of_int i) = of_int (i * 2 ^ j) * inverse (2 ^ j)"
    unfolding roundMagnitude_def Let_def L_def [symmetric] e p by (simp only:)
  also have "\<dots> = of_int i" by simp
  finally show ?thesis .
qed

lemma safe_positive_number:
  assumes "0 < i" and "i < 2 ^ 53"
  shows "NumberValueFor (of_int i) = Finite (of_int i)"
proof -
  define B :: rat where "B = of_int (2 ^ 1024)"
  have nz: "(of_int i :: rat) \<noteq> 0" using assms(1) by simp
  have a: "\<bar>of_int i :: rat\<bar> = of_int i" using assms(1) by simp
  have "(of_int i :: rat) < of_int (2 ^ 53)" using assms(2) by (simp only: of_int_less_iff)
  also have "(of_int (2 ^ 53) :: rat) = 2 ^ 53" by simp
  also have "(2::rat) ^ 53 \<le> 2 ^ 1024" by (rule power_increasing) simp_all
  finally have b: "\<not> B \<le> of_int i" by (simp add: B_def)
  have n: "\<not> (of_int i :: rat) < 0" using assms(1) by simp
  show ?thesis
    unfolding NumberValueFor_nonzero [OF nz B_def] a roundMagnitude_integer [OF assms]
    using b n by (simp only: if_False)
qed

lemma isSafeInteger_isNumber: "isSafeInteger x \<Longrightarrow> isNumber x"
proof (cases x)
  case (Finite q)
  assume "isSafeInteger x"
  then obtain i where q: "q = of_int i" and b: "\<bar>i\<bar> \<le> 9007199254740991"
    unfolding Finite isSafeInteger_def number.case
    by (metis of_int_abs of_int_le_iff of_int_numeral)
  have lt: "\<bar>i\<bar> < 2 ^ 53" using b by simp
  consider "i = 0" | "0 < i" | "i < 0" by linarith
  then have "NumberValueFor (of_int i) = Finite (of_int i)"
  proof cases
    case 1
    then show ?thesis by (simp add: NumberValueFor_zero)
  next
    case 2
    with lt show ?thesis by (intro safe_positive_number) simp_all
  next
    case 3
    with lt have "NumberValueFor (of_int (- i)) = Finite (of_int (- i))"
      by (intro safe_positive_number) simp_all
    from NumberValueFor_minus [OF this] show ?thesis by simp
  qed
  then show ?thesis by (simp add: isNumber_def Finite q)
qed (simp_all add: isNumber_def)

text \<open>The string of a positive number and what is read back from it.\<close>

lemma number_digits:
  assumes "NumberValueFor q = Finite q" and "0 < q"
  obtains n k s where "digitsOf q = (n, k, s)" and "validDigits q (n, k, s)"
    and "decimalExponent q \<le> n" and "n \<le> decimalExponent q + 1"
proof -
  obtain n k s where d: "digitsOf q = (n, k, s)" by (cases "digitsOf q") auto
  from digitsOf_valid [OF assms] show thesis by (intro that [OF d]) (simp_all add: d)
qed

lemma parseFloat_formatDigits:
  assumes "validDigits q (n, k, s)"
  shows "parseFloat (formatDigits n k s) = Finite q"
    and "parseFloat (CHR ''-'' # formatDigits n k s) = NumberValueFor (- (of_int s * 10 powi (n - int k)))"
proof -
  from formatDigits_head [OF assms]
  have h: "formatDigits n k s \<noteq> []" "isDigit (hd (formatDigits n k s))" by simp_all
  have v: "NumberValueFor (of_int s * 10 powi (n - int k)) = Finite q"
    using assms by (simp add: validDigits_def)
  show "parseFloat (formatDigits n k s) = Finite q"
    unfolding parseFloat_digits(1) [OF h] unsignedDecimal_formatDigits [OF assms] option.case
    by (rule v)
  show "parseFloat (CHR ''-'' # formatDigits n k s) =
      NumberValueFor (- (of_int s * 10 powi (n - int k)))"
    unfolding parseFloat_digits(2) [OF h] unsignedDecimal_formatDigits [OF assms] option.case ..
qed

lemma parseFloat_toString:
  assumes "NumberValueFor q = Finite q"
  shows "parseFloat (Number_toString (Finite q)) = Finite q"
proof -
  consider "q = 0" | "0 < q" | "q < 0" by linarith
  then show ?thesis
  proof cases
    case 1
    have "unsignedDecimal ''0'' = Some 0"
      using unsigned_plain [of "''0''" "[]"]
      by (simp add: isDigit_zero exponentPart_simps digitsValue_def digitValue_def)
    then have "parseFloat ''0'' = Finite 0"
      using parseFloat_digits(1) [of "''0''"] by (simp add: isDigit_zero NumberValueFor_zero)
    with 1 show ?thesis by (simp add: Number_toString_def)
  next
    case 2
    from number_digits [OF assms 2] obtain n k s
      where d: "digitsOf q = (n, k, s)" and v: "validDigits q (n, k, s)" by blast
    have "Number_toString (Finite q) = formatDigits n k s"
      using 2 by (simp add: Number_toString_def d)
    with parseFloat_formatDigits(1) [OF v] show ?thesis by simp
  next
    case 3
    then have p: "0 < - q" by simp
    from NumberValueFor_minus [OF assms] have m: "NumberValueFor (- q) = Finite (- q)" .
    from number_digits [OF m p] obtain n k s
      where d: "digitsOf (- q) = (n, k, s)" and v: "validDigits (- q) (n, k, s)" by blast
    have a: "\<bar>q\<bar> = - q" using 3 by simp
    have "Number_toString (Finite q) = CHR ''-'' # formatDigits n k s"
      using 3 by (simp add: Number_toString_def a d)
    moreover have "NumberValueFor (of_int s * 10 powi (n - int k)) = Finite (- q)"
      using v by (simp add: validDigits_def)
    then have "NumberValueFor (- (of_int s * 10 powi (n - int k))) = Finite (- (- q))"
      by (rule NumberValueFor_minus)
    ultimately show ?thesis using parseFloat_formatDigits(2) [OF v] by simp
  qed
qed

lemma floatConverter_number:
  assumes "isNumber x" and "x \<noteq> NaN"
  shows "parse floatConverter (stringify floatConverter x) = Some x"
proof (cases x)
  case NaN
  with assms(2) show ?thesis by simp
next
  case PosInfinity
  have "parseFloat ''Infinity'' = PosInfinity" by (simp add: parseFloat_def isWhiteSpace_def)
  then show ?thesis
    by (simp add: PosInfinity floatConverter_def Number_toString_def Number_isNaN_def)
next
  case NegInfinity
  have "parseFloat ''-Infinity'' = NegInfinity" by (simp add: parseFloat_def isWhiteSpace_def)
  then show ?thesis
    by (simp add: NegInfinity floatConverter_def Number_toString_def Number_isNaN_def)
next
  case (Finite q)
  with assms(1) have "NumberValueFor q = Finite q" by (simp add: isNumber_def)
  then have "parseFloat (Number_toString (Finite q)) = Finite q" by (rule parseFloat_toString)
  then show ?thesis by (simp add: Finite floatConverter_def Number_isNaN_def)
qed

lemma floatConverter_NaN: "parse floatConverter (stringify floatConverter NaN) = None"
proof -
  have "parseFloat ''NaN'' = NaN"
    by (simp add: parseFloat_def unsignedDecimal_def isWhiteSpace_def isDigit_def)
  then show ?thesis by (simp add: floatConverter_def Number_toString_def Number_isNaN_def)
qed

lemma formatDigits_integer:
  assumes "validDigits x (n, k, s)" and "int k \<le> n" and "n \<le> 21"
  shows "(\<forall>c\<in>set (formatDigits n k s). isDigit c) \<and> formatDigits n k s \<noteq> [] \<and>
         (of_nat (digitsValue (formatDigits n k s)) :: rat) = of_int s * 10 powi (n - int k)"
proof -
  define ds where "ds = decimal (nat s)"
  define z where "z = nat (n - int k)"
  note v = valid_digits [OF assms(1), folded ds_def]
  have ne: "ds \<noteq> []" using v(1,5) by auto
  have s: "(of_nat (nat s) :: rat) = of_int s" using v(4) by simp
  have f: "formatDigits n k s = ds @ replicate z (CHR ''0'')"
    using assms(2,3) by (simp add: formatDigits_def Let_def ds_def z_def)
  have d: "\<forall>c\<in>set (ds @ replicate z (CHR ''0'')). isDigit c"
    using v(2) by (auto simp: isDigit_zero)
  have "of_nat (digitsValue (ds @ replicate z (CHR ''0''))) = (of_int s :: rat) * 10 ^ z"
    by (simp add: digitsValue_append_zeros v(3) s)
  also have "(10::rat) ^ z = 10 powi (n - int k)"
    using assms(2) by (simp add: z_def pow10_nat [symmetric])
  finally show ?thesis unfolding f using d ne by simp
qed

lemma integer_exponent:
  assumes "NumberValueFor (of_int i) = Finite (of_int i)" and "0 < i" and "i < 2 ^ 53"
  shows "decimalExponent (of_int i) \<le> 16"
proof (rule ccontr)
  assume "\<not> decimalExponent (of_int i) \<le> 16"
  then have "int 16 \<le> decimalExponent (of_int i) - 1" by simp
  then have "(10::rat) powi int 16 \<le> 10 powi (decimalExponent (of_int i) - 1)" by (rule pow10_mono)
  also have "\<dots> \<le> of_int i"
    using assms(1,2) by (intro decimalExponent_correct(1)) simp_all
  finally have "(10::rat) ^ 16 \<le> of_int i" by (simp only: pow10_nat)
  moreover have "(10::rat) ^ 16 = of_int (10 ^ 16)" by simp
  ultimately have "(10::int) ^ 16 \<le> i" by (simp only: of_int_le_iff)
  with assms(3) show False by simp
qed

lemma parseInt10_toString_positive:
  assumes "0 < i" and "i < 2 ^ 53"
  shows "parseInt10 (Number_toString (Finite (of_int i))) = Finite (of_int i)"
    and "parseInt10 (Number_toString (Finite (- of_int i))) = Finite (- of_int i)"
proof -
  define q :: rat where "q = of_int i"
  have num: "NumberValueFor q = Finite q" unfolding q_def by (rule safe_positive_number [OF assms])
  have pos: "0 < q" using assms(1) by (simp add: q_def)
  from number_digits [OF num pos] obtain n k s
    where d: "digitsOf q = (n, k, s)" and v: "validDigits q (n, k, s)"
      and lo: "decimalExponent q \<le> n" and hi: "n \<le> decimalExponent q + 1" by blast
  have "int (fst (snd (digitsOf q))) \<le> decimalExponent q"
    unfolding q_def by (rule digitsOf_integer [OF num [unfolded q_def] assms(1)])
  then have kn: "int k \<le> n" using lo by (simp add: d)
  have "decimalExponent q \<le> 16"
    unfolding q_def by (rule integer_exponent [OF num [unfolded q_def] assms])
  with hi have n21: "n \<le> 21" by simp
  define A where "A = formatDigits n k s"
  from formatDigits_integer [OF v kn n21]
  have A: "\<forall>c\<in>set A. isDigit c" "A \<noteq> []" "(of_nat (digitsValue A) :: rat) = of_int s * 10 powi (n - int k)"
    by (simp_all add: A_def)
  have val: "NumberValueFor (of_nat (digitsValue A)) = Finite q"
    unfolding A(3) using v by (simp add: validDigits_def)
  have "Number_toString (Finite q) = A"
    using pos by (simp add: Number_toString_def d A_def)
  with parseInt10_digits(1) [OF A(1,2)] val
  show "parseInt10 (Number_toString (Finite (of_int i))) = Finite (of_int i)"
    by (simp add: q_def)
  have "Number_toString (Finite (- q)) = CHR ''-'' # A"
    using pos by (simp add: Number_toString_def d A_def)
  with parseInt10_digits(2) [OF A(1,2)] NumberValueFor_minus [OF val]
  show "parseInt10 (Number_toString (Finite (- of_int i))) = Finite (- of_int i)"
    by (simp add: q_def)
qed

lemma intConverter_safe:
  assumes "isSafeInteger x"
  shows "parse intConverter (stringify intConverter x) = Some x"
proof -
  from assms obtain q where x: "x = Finite q" by (cases x) (simp_all add: isSafeInteger_def)
  from assms obtain i where q: "q = of_int i" and b: "\<bar>i\<bar> \<le> 9007199254740991"
    unfolding x isSafeInteger_def number.case
    by (metis of_int_abs of_int_le_iff of_int_numeral)
  have lt: "\<bar>i\<bar> < 2 ^ 53" using b by simp
  consider "i = 0" | "0 < i" | "i < 0" by linarith
  then have "parseInt10 (Number_toString (Finite (of_int i))) = Finite (of_int i)"
  proof cases
    case 1
    have "parseInt10 ''0'' = Finite 0"
      using parseInt10_digits(1) [of "''0''"]
      by (simp add: isDigit_zero digitsValue_def digitValue_def NumberValueFor_zero)
    with 1 show ?thesis by (simp add: Number_toString_def)
  next
    case 2
    with lt show ?thesis by (intro parseInt10_toString_positive(1)) simp_all
  next
    case 3
    with lt have "parseInt10 (Number_toString (Finite (- of_int (- i)))) = Finite (- of_int (- i))"
      by (intro parseInt10_toString_positive(2)) simp_all
    then show ?thesis by simp
  qed
  then show ?thesis by (simp add: x q intConverter_def Number_isNaN_def)
qed

lemma parseInt10_Infinity: "parseInt10 ''Infinity'' = NaN"
  by (simp add: parseInt10_def isWhiteSpace_def isDigit_def)

lemma intConverter_not_finite:
  "parse intConverter (stringify intConverter NaN) = None"
  "parse intConverter (stringify intConverter PosInfinity) = None"
  "parse intConverter (stringify intConverter NegInfinity) = None"
  by (simp_all add: intConverter_def Number_toString_def parseInt10_def isWhiteSpace_def isDigit_def
      Number_isNaN_def)

subsection \<open>Dates\<close>

lemma div_bounds:
  fixes x k :: int
  assumes "0 < k"
  shows "k * (x div k) \<le> x" and "x \<le> k * (x div k) + k - 1"
proof -
  have e: "k * (x div k) + x mod k = x" by simp
  have l: "0 \<le> x mod k" using assms by simp
  have u: "x mod k < k" using assms by simp
  from e l show "k * (x div k) \<le> x" by linarith
  from e u show "x \<le> k * (x div k) + k - 1" by linarith
qed

lemma DayFromYear_bounds:
  shows "400 * DayFromYear y \<le> 146097 * y - 287810501"
    and "146097 * y - 287811596 \<le> 400 * DayFromYear y"
proof -
  define a where "a = (y - 1969) div 4"
  define b where "b = (y - 1901) div 100"
  define c where "c = (y - 1601) div 400"
  have a: "4 * a \<le> y - 1969" "y - 1969 \<le> 4 * a + 4 - 1"
    unfolding a_def by (rule div_bounds, simp)+
  have b: "100 * b \<le> y - 1901" "y - 1901 \<le> 100 * b + 100 - 1"
    unfolding b_def by (rule div_bounds, simp)+
  have c: "400 * c \<le> y - 1601" "y - 1601 \<le> 400 * c + 400 - 1"
    unfolding c_def by (rule div_bounds, simp)+
  have e: "DayFromYear y = 365 * y - 719050 + a - b + c"
    by (simp add: DayFromYear_def a_def b_def c_def)
  from a b c e show "400 * DayFromYear y \<le> 146097 * y - 287810501" by linarith
  from a b c e show "146097 * y - 287811596 \<le> 400 * DayFromYear y" by linarith
qed

lemma YearFromTime_bounds:
  shows "DayFromYear (YearFromTime t) \<le> Day t"
    and "Day t < DayFromYear (YearFromTime t + 1)"
proof -
  define d where "d = Day t"
  define Y where "Y = (400 * d) div 146097"
  define y0 where "y0 = 1970 + Y"
  have Y: "146097 * Y \<le> 400 * d" "400 * d \<le> 146097 * Y + 146097 - 1"
    unfolding Y_def by (rule div_bounds, simp)+
  have y0: "146097 * y0 \<le> 400 * d + 287811090" "400 * d + 287811090 \<le> 146097 * y0 + 146096"
    using Y by (simp_all add: y0_def)
  define ym where "ym = y0 - 1"
  define yp where "yp = y0 + 1 + 1"
  have ym: "146097 * ym = 146097 * y0 - 146097" by (simp add: ym_def)
  have yp: "146097 * yp = 146097 * y0 + 292194" by (simp add: yp_def)
  have low: "DayFromYear ym \<le> d"
    using DayFromYear_bounds(1) [of ym] y0 ym by linarith
  have high: "d < DayFromYear yp"
    using DayFromYear_bounds(2) [of yp] y0 yp by linarith
  show "DayFromYear (YearFromTime t) \<le> Day t"
    unfolding YearFromTime_def d_def [symmetric] Y_def [symmetric] y0_def [symmetric] Let_def
    using low by (auto simp: ym_def)
  show "Day t < DayFromYear (YearFromTime t + 1)"
    unfolding YearFromTime_def d_def [symmetric] Y_def [symmetric] y0_def [symmetric] Let_def
    using high by (auto simp: yp_def)
qed

lemma div_succ:
  fixes x k :: int
  assumes "0 < k"
  shows "(x + 1) div k = x div k + (if (x + 1) mod k = 0 then 1 else 0)"
proof -
  have e: "x = k * (x div k) + x mod k" by simp
  have l: "0 \<le> x mod k" and u: "x mod k < k" using assms by simp_all
  show ?thesis
  proof (cases "x mod k = k - 1")
    case True
    with e have x1: "x + 1 = k * (x div k + 1) + 0" by (simp add: algebra_simps)
    have "(x + 1) div k = x div k + 1"
      by (rule int_div_pos_eq [OF x1]) (use assms in simp_all)
    moreover have "(x + 1) mod k = 0"
      by (rule int_mod_pos_eq [OF x1]) (use assms in simp_all)
    ultimately show ?thesis by simp
  next
    case False
    with u have r: "x mod k + 1 < k" by simp
    from e have x1: "x + 1 = k * (x div k) + (x mod k + 1)" by simp
    have "(x + 1) div k = x div k"
      by (rule int_div_pos_eq [OF x1]) (use l r in simp_all)
    moreover have "(x + 1) mod k = x mod k + 1"
      by (rule int_mod_pos_eq [OF x1]) (use l r in simp_all)
    ultimately show ?thesis using l by simp
  qed
qed

lemma mod_shift:
  "((y::int) - 1968) mod 4 = y mod 4" "(y - 1900) mod 100 = y mod 100" "(y - 1600) mod 400 = y mod 400"
  by (subst mod_diff_right_eq [symmetric], simp)+

lemma mod_chain:
  "(y::int) mod 100 = 0 \<Longrightarrow> y mod 4 = 0" "(y::int) mod 400 = 0 \<Longrightarrow> y mod 100 = 0"
proof -
  assume "y mod 100 = 0"
  then have "100 dvd y" by (simp add: dvd_eq_mod_eq_0)
  moreover have "(4::int) dvd 100" by simp
  ultimately have "4 dvd y" by (rule dvd_trans [rotated])
  then show "y mod 4 = 0" by (simp add: dvd_eq_mod_eq_0)
next
  assume "y mod 400 = 0"
  then have "400 dvd y" by (simp add: dvd_eq_mod_eq_0)
  moreover have "(100::int) dvd 400" by simp
  ultimately have "100 dvd y" by (rule dvd_trans [rotated])
  then show "y mod 100 = 0" by (simp add: dvd_eq_mod_eq_0)
qed

lemma DayFromYear_step: "DayFromYear (y + 1) = DayFromYear y + DaysInYear y"
proof -
  have a: "(y + 1 - 1969) div 4 = (y - 1969) div 4 + (if y mod 4 = 0 then 1 else 0)"
    using div_succ [of 4 "y - 1969"] mod_shift(1) [of y] by (simp add: algebra_simps)
  have b: "(y + 1 - 1901) div 100 = (y - 1901) div 100 + (if y mod 100 = 0 then 1 else 0)"
    using div_succ [of 100 "y - 1901"] mod_shift(2) [of y] by (simp add: algebra_simps)
  have c: "(y + 1 - 1601) div 400 = (y - 1601) div 400 + (if y mod 400 = 0 then 1 else 0)"
    using div_succ [of 400 "y - 1601"] mod_shift(3) [of y] by (simp add: algebra_simps)
  show ?thesis
    unfolding DayFromYear_def DaysInYear_def a b c
    using mod_chain [of y] by auto
qed

lemma DayFromYear_less: "y < y' \<Longrightarrow> DayFromYear y < DayFromYear y'"
proof -
  assume "y < y'"
  then have "146097 * y + 146097 \<le> 146097 * y'" by simp
  with DayFromYear_bounds(1) [of y] DayFromYear_bounds(2) [of y'] show ?thesis by linarith
qed

lemma DayFromYear_mono: "y \<le> y' \<Longrightarrow> DayFromYear y \<le> DayFromYear y'"
  using DayFromYear_less [of y y'] by (cases "y = y'") auto

lemma YearFromTime_eq:
  assumes "DayFromYear y \<le> Day t" and "Day t < DayFromYear (y + 1)"
  shows "YearFromTime t = y"
proof (rule ccontr)
  assume ne: "YearFromTime t \<noteq> y"
  show False
  proof (cases "YearFromTime t < y")
    case True
    then have "YearFromTime t + 1 \<le> y" by simp
    then have "DayFromYear (YearFromTime t + 1) \<le> DayFromYear y"
      by (rule DayFromYear_mono)
    with YearFromTime_bounds(2) [of t] assms(1) show False by simp
  next
    case False
    with ne have "y + 1 \<le> YearFromTime t" by simp
    then have "DayFromYear (y + 1) \<le> DayFromYear (YearFromTime t)"
      by (rule DayFromYear_mono)
    with YearFromTime_bounds(1) [of t] assms(2) show False by simp
  qed
qed

lemma YearFromTime_largest:
  "TimeFromYear (YearFromTime t) \<le> t \<and> (\<forall>y. TimeFromYear y \<le> t \<longrightarrow> y \<le> YearFromTime t)"
proof -
  have d: "msPerDay * Day t \<le> t" "t \<le> msPerDay * Day t + msPerDay - 1"
    unfolding Day_def by (rule div_bounds, simp add: msPerDay_def)+
  have one: "TimeFromYear (YearFromTime t) \<le> t"
    using YearFromTime_bounds(1) [of t] d unfolding TimeFromYear_def msPerDay_def by linarith
  have two: "\<And>y. TimeFromYear y \<le> t \<Longrightarrow> y \<le> YearFromTime t"
  proof (rule ccontr)
    fix y assume a: "TimeFromYear y \<le> t" and "\<not> y \<le> YearFromTime t"
    then have "YearFromTime t + 1 \<le> y" by simp
    then have "DayFromYear (YearFromTime t + 1) \<le> DayFromYear y"
      by (rule DayFromYear_mono)
    with YearFromTime_bounds(2) [of t] have "Day t + 1 \<le> DayFromYear y" by simp
    with a d show False unfolding TimeFromYear_def msPerDay_def by linarith
  qed
  from one two show ?thesis by blast
qed

lemma DayWithinYear_range:
  "0 \<le> DayWithinYear t \<and> DayWithinYear t < DaysInYear (YearFromTime t)"
  using YearFromTime_bounds [of t] DayFromYear_step [of "YearFromTime t"]
  by (simp add: DayWithinYear_def)

lemma InLeapYear_cases:
  "(InLeapYear t = 0 \<and> DaysInYear (YearFromTime t) = 365) \<or>
   (InLeapYear t = 1 \<and> DaysInYear (YearFromTime t) = 366)"
  by (simp add: InLeapYear_def DaysInYear_def)

lemma MonthFromTime_range: "0 \<le> MonthFromTime t \<and> MonthFromTime t \<le> 11"
  by (simp add: MonthFromTime_def Let_def)

lemma monthStart_simps:
  "monthStart 0 l = 0" "monthStart 1 l = 31" "monthStart 2 l = 59 + l" "monthStart 3 l = 90 + l"
  "monthStart 4 l = 120 + l" "monthStart 5 l = 151 + l" "monthStart 6 l = 181 + l"
  "monthStart 7 l = 212 + l" "monthStart 8 l = 243 + l" "monthStart 9 l = 273 + l"
  "monthStart 10 l = 304 + l" "monthStart 11 l = 334 + l" "monthStart 12 l = 365 + l"
  by (simp_all add: monthStart_def)

lemma DateFromTime_eq:
  "DateFromTime t = DayWithinYear t - monthStart (MonthFromTime t) (InLeapYear t) + 1"
proof -
  define m where "m = MonthFromTime t"
  have "0 \<le> m" "m \<le> 11" using MonthFromTime_range [of t] by (simp_all add: m_def)
  then have "m = 0 \<or> m = 1 \<or> m = 2 \<or> m = 3 \<or> m = 4 \<or> m = 5 \<or> m = 6 \<or> m = 7 \<or> m = 8 \<or>
     m = 9 \<or> m = 10 \<or> m = 11" by presburger
  then show ?thesis
    unfolding DateFromTime_def Let_def m_def [symmetric]
    by (elim disjE) (simp_all add: monthStart_simps)
qed

lemma month_range:
  "monthStart (MonthFromTime t) (InLeapYear t) \<le> DayWithinYear t \<and>
   DayWithinYear t < monthStart (MonthFromTime t + 1) (InLeapYear t)"
proof -
  define d where "d = DayWithinYear t"
  define l where "l = InLeapYear t"
  have r: "0 \<le> d" "d < 365 + l"
    using DayWithinYear_range [of t] InLeapYear_cases [of t] by (auto simp: d_def l_def)
  have l: "0 \<le> l" using InLeapYear_cases [of t] by (auto simp: l_def)
  show ?thesis
    unfolding MonthFromTime_def Let_def d_def [symmetric] l_def [symmetric]
    using r l by (simp add: monthStart_simps)
qed

lemma month_date:
  "monthStart (MonthFromTime t) (InLeapYear t) + DateFromTime t - 1 = DayWithinYear t \<and>
   1 \<le> DateFromTime t \<and>
   DateFromTime t \<le> monthStart (MonthFromTime t + 1) (InLeapYear t) -
     monthStart (MonthFromTime t) (InLeapYear t)"
  using month_range [of t] by (simp add: DateFromTime_eq)

lemma MakeDay_of_time:
  "MakeDay (YearFromTime t) (MonthFromTime t) (DateFromTime t) = Day t"
proof -
  have m: "MonthFromTime t div 12 = 0" "MonthFromTime t mod 12 = MonthFromTime t"
    using MonthFromTime_range [of t] by simp_all
  have "MakeDay (YearFromTime t) (MonthFromTime t) (DateFromTime t) =
      DayFromYear (YearFromTime t) + monthStart (MonthFromTime t) (InLeapYear t) + DateFromTime t - 1"
    unfolding MakeDay_def m Let_def InLeapYear_def by simp
  also have "\<dots> = Day t"
    using month_date [of t] by (simp add: DayWithinYear_def)
  finally show ?thesis .
qed

lemma MakeTime_of_time:
  "MakeTime (HourFromTime t) (MinFromTime t) (SecFromTime t) (msFromTime t) = TimeWithinDay t"
proof -
  define q1 where "q1 = t div 1000"
  define q2 where "q2 = q1 div 60"
  define q3 where "q3 = q2 div 60"
  have a: "t mod 86400000 = 1000 * (q1 mod 86400) + t mod 1000"
    using zmod_zmult2_eq [of 86400 t 1000] by (simp add: q1_def)
  have b: "q1 mod 86400 = 60 * (q2 mod 1440) + q1 mod 60"
    using zmod_zmult2_eq [of 1440 q1 60] by (simp add: q2_def)
  have c: "q2 mod 1440 = 60 * (q3 mod 24) + q2 mod 60"
    using zmod_zmult2_eq [of 24 q2 60] by (simp add: q3_def)
  have d1: "t div 60000 = q2"
    using zdiv_zmult2_eq [of 60 t 1000] by (simp add: q1_def q2_def)
  have d2: "t div 3600000 = q3"
    using zdiv_zmult2_eq [of 3600 t 1000] zdiv_zmult2_eq [of 60 q1 60]
    by (simp add: q1_def q2_def q3_def)
  have "MakeTime (HourFromTime t) (MinFromTime t) (SecFromTime t) (msFromTime t) =
      (q3 mod 24) * 3600000 + (q2 mod 60) * 60000 + (q1 mod 60) * 1000 + t mod 1000"
    unfolding MakeTime_def HourFromTime_def MinFromTime_def SecFromTime_def msFromTime_def d1 d2
    by (simp add: q1_def)
  also have "\<dots> = t mod 86400000"
    unfolding a b c by simp
  finally show ?thesis by (simp add: TimeWithinDay_def msPerDay_def)
qed

lemma MakeDate_of_time: "MakeDate (Day t) (TimeWithinDay t) = t"
  by (simp add: MakeDate_def Day_def TimeWithinDay_def)

lemma time_fields_range:
  "0 \<le> HourFromTime t \<and> HourFromTime t \<le> 23 \<and> 0 \<le> MinFromTime t \<and> MinFromTime t \<le> 59 \<and>
   0 \<le> SecFromTime t \<and> SecFromTime t \<le> 59 \<and> 0 \<le> msFromTime t \<and> msFromTime t \<le> 999"
proof -
  have m: "\<And>a b :: int. 0 < b \<Longrightarrow> 0 \<le> a mod b \<and> a mod b \<le> b - 1"
  proof -
    fix a b :: int assume "0 < b"
    then have "0 \<le> a mod b" "a mod b < b" by (rule pos_mod_sign, rule pos_mod_bound)
    then show "0 \<le> a mod b \<and> a mod b \<le> b - 1" by simp
  qed
  show ?thesis
    unfolding HourFromTime_def MinFromTime_def SecFromTime_def msFromTime_def
    using m [of 24 "t div 3600000"] m [of 60 "t div 60000"] m [of 60 "t div 1000"] m [of 1000 t]
    by (simp del: pos_mod_sign pos_mod_bound)
qed

lemma YearFromTime_range:
  assumes "\<bar>t\<bar> \<le> 8640000000000000"
  shows "- 271821 \<le> YearFromTime t \<and> YearFromTime t \<le> 275760"
proof -
  have d: "msPerDay * Day t \<le> t" "t \<le> msPerDay * Day t + msPerDay - 1"
    unfolding Day_def by (rule div_bounds, simp add: msPerDay_def)+
  from assms d have dr: "- 100000000 \<le> Day t" "Day t \<le> 100000000"
    unfolding msPerDay_def by linarith+
  have lo: "DayFromYear (- 271821) \<le> - 100000000" by (simp add: DayFromYear_def)
  have hi: "100000000 < DayFromYear (275760 + 1)" by (simp add: DayFromYear_def)
  have "\<not> YearFromTime t < - 271821"
  proof
    assume "YearFromTime t < - 271821"
    then have "YearFromTime t + 1 \<le> - 271821" by simp
    then have "DayFromYear (YearFromTime t + 1) \<le> DayFromYear (- 271821)"
      by (rule DayFromYear_mono)
    with YearFromTime_bounds(2) [of t] lo dr show False by linarith
  qed
  moreover have "\<not> 275760 < YearFromTime t"
  proof
    assume "275760 < YearFromTime t"
    then have "275760 + 1 \<le> YearFromTime t" by simp
    then have "DayFromYear (275760 + 1) \<le> DayFromYear (YearFromTime t)"
      by (rule DayFromYear_mono)
    with YearFromTime_bounds(1) [of t] hi dr show False by linarith
  qed
  ultimately show ?thesis by simp
qed

lemma Day_of_days: "Day (k * msPerDay) = k" "TimeWithinDay (k * msPerDay) = 0"
  by (simp_all add: Day_def TimeWithinDay_def msPerDay_def)

lemma MakeDay_finds:
  "YearFromTime (MakeDay year month 1 * msPerDay) = year + month div 12 \<and>
   MonthFromTime (MakeDay year month 1 * msPerDay) = month mod 12 \<and>
   DateFromTime (MakeDay year month 1 * msPerDay) = 1 \<and>
   MakeDay year month dt = Day (MakeDay year month 1 * msPerDay) + dt - 1"
proof -
  define ym where "ym = year + month div 12"
  define mn where "mn = month mod 12"
  define t where "t = MakeDay year month 1 * msPerDay"
  define l :: int where "l = (if DaysInYear ym = 365 then 0 else 1)"
  have mn: "0 \<le> mn" "mn \<le> 11"
    using pos_mod_sign [of 12 month] pos_mod_bound [of 12 month] by (simp_all add: mn_def)
  then have ms: "mn = 0 \<or> mn = 1 \<or> mn = 2 \<or> mn = 3 \<or> mn = 4 \<or> mn = 5 \<or> mn = 6 \<or> mn = 7 \<or>
     mn = 8 \<or> mn = 9 \<or> mn = 10 \<or> mn = 11" by presburger
  have l: "l = 0 \<or> l = 1" by (simp add: l_def)
  have dy: "DaysInYear ym = 365 + l" by (simp add: l_def DaysInYear_def)
  have st: "0 \<le> monthStart mn l" "monthStart mn l < 365 + l"
    using ms l by (auto simp: monthStart_simps)
  have day: "Day t = DayFromYear ym + monthStart mn l"
    unfolding t_def Day_of_days by (simp add: MakeDay_def ym_def mn_def l_def Let_def)
  have y: "YearFromTime t = ym"
  proof (rule YearFromTime_eq)
    show "DayFromYear ym \<le> Day t" using day st by simp
    show "Day t < DayFromYear (ym + 1)" using day st dy by (simp add: DayFromYear_step)
  qed
  have dw: "DayWithinYear t = monthStart mn l" by (simp add: DayWithinYear_def y day)
  have il: "InLeapYear t = l" by (simp add: InLeapYear_def y l_def)
  have m: "MonthFromTime t = mn"
    unfolding MonthFromTime_def dw il Let_def
    using ms l by (elim disjE) (simp_all add: monthStart_simps)
  have d: "DateFromTime t = 1" by (simp add: DateFromTime_eq m dw il)
  have "MakeDay year month dt = Day t + dt - 1"
    unfolding day by (simp add: MakeDay_def ym_def mn_def l_def Let_def)
  with y m d show ?thesis
    unfolding ym_def mn_def t_def by simp
qed

lemma padded_length:
  assumes "0 < w" and "n < 10 ^ w"
  shows "length (ToZeroPaddedDecimalString n w) = w"
proof -
  from assms(1) obtain v where w: "w = Suc v" by (cases w) simp_all
  have "length (decimal n) \<le> w" using assms(2) unfolding w by (rule decimal_length)
  then show ?thesis by (simp add: ToZeroPaddedDecimalString_def)
qed

lemma padded_digits: "list_all isDigit (ToZeroPaddedDecimalString n w)"
proof -
  have "isDigit (CHR ''0'')" by (simp add: isDigit_def)
  with decimal_digits [of n] show ?thesis
    by (auto simp: ToZeroPaddedDecimalString_def list_all_iff)
qed

lemma padded_value: "digitsValue (ToZeroPaddedDecimalString n w) = n"
  by (simp add: ToZeroPaddedDecimalString_def digitsValue_zeros digitsValue_decimal)

lemma readDigits_padded:
  assumes "0 < w" and "n < 10 ^ w"
  shows "readDigits w (ToZeroPaddedDecimalString n w @ r) = Some (int n, r)"
  using padded_length [OF assms] padded_digits [of n w] padded_value [of n w]
  by (simp add: readDigits_def)

lemma readDigits_field:
  assumes "0 < w" and "0 \<le> x" and "x < 10 ^ w"
  shows "readDigits w (ToZeroPaddedDecimalString (nat x) w @ r) = Some (x, r)"
proof -
  have "nat x < 10 ^ w" using assms(2,3) by (simp add: nat_less_iff)
  from readDigits_padded [OF assms(1) this, of r] assms(2) show ?thesis by simp
qed

lemma expect_Cons: "expect c (c # r) = Some r"
  by (simp add: expect_def)

lemma padded_hd:
  assumes "0 < w" and "n < 10 ^ w"
  shows "ToZeroPaddedDecimalString n w \<noteq> [] \<and> isDigit (hd (ToZeroPaddedDecimalString n w))"
proof -
  define p where "p = ToZeroPaddedDecimalString n w"
  have "length p = w" unfolding p_def using assms by (rule padded_length)
  with assms(1) obtain c cs where p: "p = c # cs" by (cases p) auto
  have "list_all isDigit p" unfolding p_def by (rule padded_digits)
  with p show ?thesis unfolding p_def [symmetric] by simp
qed

lemma readYear_yearString:
  assumes "- 271821 \<le> y" and "y \<le> 275760"
  shows "readYear (yearString y @ r) = Some (y, r)"
proof -
  consider (plain) "0 \<le> y" "y \<le> 9999" | (plus) "9999 < y" | (minus) "y < 0" by linarith
  then show ?thesis
  proof cases
    case plain
    define p where "p = ToZeroPaddedDecimalString (nat y) 4"
    have n: "nat y < 10 ^ 4" using plain by simp
    have h: "p \<noteq> []" "isDigit (hd p)" using padded_hd [OF _ n] by (simp_all add: p_def)
    have hd: "hd (p @ r) = hd p" using h(1) by simp
    have np: "hd p \<noteq> CHR ''+''" "hd p \<noteq> CHR ''-''" using isDigit_plain [OF h(2)] by simp_all
    have "readDigits 4 (p @ r) = Some (y, r)"
      unfolding p_def using plain by (intro readDigits_field) simp_all
    then show ?thesis
      using plain np hd by (simp add: readYear_def yearString_def p_def [symmetric])
  next
    case plus
    have "readDigits 6 (ToZeroPaddedDecimalString (nat \<bar>y\<bar>) 6 @ r) = Some (\<bar>y\<bar>, r)"
      using plus assms by (intro readDigits_field) simp_all
    then show ?thesis using plus by (simp add: readYear_def yearString_def)
  next
    case minus
    have "readDigits 6 (ToZeroPaddedDecimalString (nat \<bar>y\<bar>) 6 @ r) = Some (\<bar>y\<bar>, r)"
      using minus assms by (intro readDigits_field) simp_all
    then show ?thesis using minus by (simp add: readYear_def yearString_def)
  qed
qed

lemma monthStart_diff:
  assumes "0 \<le> m" and "m \<le> 11"
  shows "monthStart (m + 1) (if DaysInYear y = 365 then 0 else 1) -
         monthStart m (if DaysInYear y = 365 then 0 else 1) = DaysInMonth y (m + 1)"
proof -
  from assms have "m = 0 \<or> m = 1 \<or> m = 2 \<or> m = 3 \<or> m = 4 \<or> m = 5 \<or> m = 6 \<or> m = 7 \<or> m = 8 \<or>
     m = 9 \<or> m = 10 \<or> m = 11" by presburger
  then show ?thesis
    by (elim disjE) (simp_all add: monthStart_simps DaysInMonth_def)
qed

lemma DateFromTime_range:
  "1 \<le> DateFromTime t \<and> DateFromTime t \<le> DaysInMonth (YearFromTime t) (MonthFromTime t + 1)"
  using month_date [of t] MonthFromTime_range [of t]
    monthStart_diff [of "MonthFromTime t" "YearFromTime t"]
  by (simp add: InLeapYear_def)

lemma parseDateTime_toISOString:
  assumes "\<bar>t\<bar> \<le> 8640000000000000"
  shows "\<exists>s. toISOString (TimeValue t) = Inr s \<and> parseDateTime s = Some t"
proof -
  define y where "y = YearFromTime t"
  define m where "m = MonthFromTime t + 1"
  define d where "d = DateFromTime t"
  define h where "h = HourFromTime t"
  define mi where "mi = MinFromTime t"
  define sc where "sc = SecFromTime t"
  define ms where "ms = msFromTime t"
  have ry: "- 271821 \<le> y" "y \<le> 275760"
    using YearFromTime_range [OF assms] by (simp_all add: y_def)
  have rm: "1 \<le> m" "m \<le> 12"
    using MonthFromTime_range [of t] by (simp_all add: m_def)
  have rd: "1 \<le> d" "d \<le> DaysInMonth y m"
    using DateFromTime_range [of t] by (simp_all add: d_def y_def m_def)
  have d31: "DaysInMonth y m \<le> 31" by (simp add: DaysInMonth_def)
  have rt: "0 \<le> h" "h \<le> 23" "0 \<le> mi" "mi \<le> 59" "0 \<le> sc" "sc \<le> 59" "0 \<le> ms" "ms \<le> 999"
    using time_fields_range [of t] by (simp_all add: h_def mi_def sc_def ms_def)
  have 1: "readYear (yearString y @ r) = Some (y, r)" for r
    using ry by (rule readYear_yearString)
  have 2: "readDigits 2 (ToZeroPaddedDecimalString (nat m) 2 @ r) = Some (m, r)" for r
    using rm by (intro readDigits_field) simp_all
  have 3: "readDigits 2 (ToZeroPaddedDecimalString (nat d) 2 @ r) = Some (d, r)" for r
    using rd d31 by (intro readDigits_field) simp_all
  have 4: "readDigits 2 (ToZeroPaddedDecimalString (nat h) 2 @ r) = Some (h, r)" for r
    using rt by (intro readDigits_field) simp_all
  have 5: "readDigits 2 (ToZeroPaddedDecimalString (nat mi) 2 @ r) = Some (mi, r)" for r
    using rt by (intro readDigits_field) simp_all
  have 6: "readDigits 2 (ToZeroPaddedDecimalString (nat sc) 2 @ r) = Some (sc, r)" for r
    using rt by (intro readDigits_field) simp_all
  have 7: "readDigits 3 (ToZeroPaddedDecimalString (nat ms) 3 @ r) = Some (ms, r)" for r
    using rt by (intro readDigits_field) simp_all
  define s where "s = yearString y @ ''-'' @ ToZeroPaddedDecimalString (nat m) 2 @ ''-'' @
     ToZeroPaddedDecimalString (nat d) 2 @ ''T'' @ ToZeroPaddedDecimalString (nat h) 2 @ '':'' @
     ToZeroPaddedDecimalString (nat mi) 2 @ '':'' @ ToZeroPaddedDecimalString (nat sc) 2 @ ''.'' @
     ToZeroPaddedDecimalString (nat ms) 3 @ ''Z''"
  have str: "toISOString (TimeValue t) = Inr s"
    by (simp add: toISOString_def s_def y_def m_def d_def h_def mi_def sc_def ms_def)
  have "parseDateTime s = Some (MakeDate (MakeDay y (m - 1) d) (MakeTime h mi sc ms))"
    unfolding parseDateTime_def s_def
    using rm rd rt by (simp add: 1 2 3 4 5 6 7 expect_Cons)
  also have "MakeDay y (m - 1) d = Day t"
    unfolding y_def m_def d_def using MakeDay_of_time [of t] by simp
  also have "MakeTime h mi sc ms = TimeWithinDay t"
    unfolding h_def mi_def sc_def ms_def by (rule MakeTime_of_time)
  also have "MakeDate (Day t) (TimeWithinDay t) = t" by (rule MakeDate_of_time)
  finally have "parseDateTime s = Some t" .
  with str show ?thesis by blast
qed

lemma isoDateConverter_valid:
  assumes "\<bar>t\<bar> \<le> 8640000000000000"
  shows "\<exists>s. isoDateConverter_stringify (TimeValue t) = Inr s \<and>
             isoDateConverter_parse host s = Some (TimeValue t)"
proof -
  from parseDateTime_toISOString [OF assms] obtain s
    where s: "toISOString (TimeValue t) = Inr s" "parseDateTime s = Some t" by blast
  have "Date_parse host s = Some t" using s(2) by (simp add: Date_parse_def)
  moreover have "TimeClip t = Some t" using assms by (simp add: TimeClip_def)
  ultimately have "newDate host s = TimeValue t" by (simp add: newDate_def)
  then have "isoDateConverter_parse host s = Some (TimeValue t)"
    by (simp add: isoDateConverter_parse_def)
  with s(1) show ?thesis by (auto simp: isoDateConverter_stringify_def)
qed

lemma isoDateConverter_invalid:
  "isoDateConverter_stringify InvalidDate = Inl (RangeError ''Invalid time value'')"
  by (simp add: isoDateConverter_stringify_def toISOString_def)

lemma isoDateConverter_parse_valid:
  "isoDateConverter_parse host str = Some x \<Longrightarrow> \<exists>t. x = TimeValue t \<and> \<bar>t\<bar> \<le> 8640000000000000"
  by (cases x)
     (auto simp: isoDateConverter_parse_def newDate_def TimeClip_def Let_def
           split: option.splits if_splits Option.bind_splits)

text \<open>
  C3 (amended). \<^verbatim>\<open>parse(stringify(v))\<close> is \<open>v\<close> for every boolean with the boolean
  converter, for every string with the string converter, for every member of the supplied
  list with a converter of the enumeration factory, for every safe integer with the
  integer converter, for every number other than \<^verbatim>\<open>NaN\<close> with the float converter, and
  for every valid date with the ISO date converter (a parsed date is a new object: it is
  the same date in that it has the same time value). It is absent for \<^verbatim>\<open>NaN\<close>,
  \<^verbatim>\<open>Infinity\<close> and \<^verbatim>\<open>-Infinity\<close> with the integer converter and for \<^verbatim>\<open>NaN\<close> with the
  float converter, which are values of their value type; with the ISO date converter
  \<^verbatim>\<open>stringify\<close> throws a \<^verbatim>\<open>RangeError\<close> for an invalid date, which is a value of its value
  type.
\<close>

theorem builtin_converters_roundtrip:
  "(\<forall>b. parse booleanConverter (stringify booleanConverter b) = Some b) \<and>
   (\<forall>str. parse stringConverter (stringify stringConverter str) = Some str) \<and>
   (\<forall>enumTuple e. e \<in> set enumTuple \<longrightarrow>
      parse (enumConverterFactory enumTuple) (stringify (enumConverterFactory enumTuple) e) = Some e) \<and>
   (\<forall>x. isSafeInteger x \<longrightarrow> parse intConverter (stringify intConverter x) = Some x) \<and>
   parse intConverter (stringify intConverter NaN) = None \<and>
   parse intConverter (stringify intConverter PosInfinity) = None \<and>
   parse intConverter (stringify intConverter NegInfinity) = None \<and>
   (\<forall>x. isNumber x \<and> x \<noteq> NaN \<longrightarrow>
      parse floatConverter (stringify floatConverter x) = Some x) \<and>
   parse floatConverter (stringify floatConverter NaN) = None \<and>
   (\<forall>host t. \<bar>t\<bar> \<le> 8640000000000000 \<longrightarrow>
      (\<exists>str. isoDateConverter_stringify (TimeValue t) = Inr str \<and>
             isoDateConverter_parse host str = Some (TimeValue t))) \<and>
   isoDateConverter_stringify InvalidDate = Inl (RangeError ''Invalid time value'')"
proof -
  have b: "\<forall>b. parse booleanConverter (stringify booleanConverter b) = Some b"
    by (simp add: booleanConverter_def split: bool.splits)
  have s: "\<forall>str. parse stringConverter (stringify stringConverter str) = Some str"
    by (simp add: stringConverter_def)
  have e: "\<forall>enumTuple e. e \<in> set enumTuple \<longrightarrow>
      parse (enumConverterFactory enumTuple) (stringify (enumConverterFactory enumTuple) e) = Some e"
    by (simp add: enumConverterFactory_def)
  have i: "\<forall>x. isSafeInteger x \<longrightarrow> parse intConverter (stringify intConverter x) = Some x"
    by (intro allI impI) (rule intConverter_safe)
  have f: "\<forall>x. isNumber x \<and> x \<noteq> NaN \<longrightarrow>
      parse floatConverter (stringify floatConverter x) = Some x"
    by (intro allI impI, elim conjE) (rule floatConverter_number)
  have d: "\<forall>host t. \<bar>t\<bar> \<le> 8640000000000000 \<longrightarrow>
      (\<exists>str. isoDateConverter_stringify (TimeValue t) = Inr str \<and>
             isoDateConverter_parse host str = Some (TimeValue t))"
    by (intro allI impI) (rule isoDateConverter_valid)
  from b s e i f d intConverter_not_finite floatConverter_NaN isoDateConverter_invalid
  show ?thesis by (intro conjI)
qed

text \<open>
  The theorem at the integer \<^verbatim>\<open>-42\<close>, at a member of an enumeration, at the number
  \<^verbatim>\<open>0.1\<close>, and at the date of time value \<^verbatim>\<open>1700000000123\<close> with a host that reads
  nothing else.
\<close>

theorem builtin_converters_roundtrip_witness:
  "parse intConverter (stringify intConverter (Finite (- 42))) = Some (Finite (- 42)) \<and>
   parse (enumConverterFactory [''dark'', ''light'']) (stringify (enumConverterFactory [''dark'', ''light'']) ''dark'') =
     Some ''dark'' \<and>
   stringify floatConverter (Finite (3602879701896397 / 36028797018963968)) = ''0.1'' \<and>
   parse floatConverter ''0.1'' = Some (Finite (3602879701896397 / 36028797018963968)) \<and>
   isoDateConverter_stringify (TimeValue 1700000000123) = Inr ''2023-11-14T22:13:20.123Z'' \<and>
   isoDateConverter_parse (\<lambda>str. None) ''2023-11-14T22:13:20.123Z'' = Some (TimeValue 1700000000123)"
proof -
  have safe: "isSafeInteger (Finite (- 42))" by (simp add: isSafeInteger_def)
  have mem: "''dark'' \<in> set [''dark'', ''light'']" by simp
  have num: "isNumber (Finite (3602879701896397 / 36028797018963968)) \<and>
      Finite (3602879701896397 / 36028797018963968) \<noteq> NaN"
    by code_simp
  have tenth: "stringify floatConverter (Finite (3602879701896397 / 36028797018963968)) = ''0.1''"
    by code_simp
  have valid: "\<bar>1700000000123\<bar> \<le> (8640000000000000 :: int)" by simp
  have str: "isoDateConverter_stringify (TimeValue 1700000000123) = Inr ''2023-11-14T22:13:20.123Z''"
    by code_simp
  have i: "parse intConverter (stringify intConverter (Finite (- 42))) = Some (Finite (- 42))"
    using builtin_converters_roundtrip safe by blast
  have e: "parse (enumConverterFactory [''dark'', ''light''])
      (stringify (enumConverterFactory [''dark'', ''light'']) ''dark'') = Some ''dark''"
    using builtin_converters_roundtrip mem by blast
  have "\<forall>x. isNumber x \<and> x \<noteq> NaN \<longrightarrow>
      parse floatConverter (stringify floatConverter x) = Some x"
    using builtin_converters_roundtrip by (elim conjE)
  then have "parse floatConverter (stringify floatConverter (Finite (3602879701896397 / 36028797018963968))) =
      Some (Finite (3602879701896397 / 36028797018963968))"
    using num by (elim allE [of _ "Finite (3602879701896397 / 36028797018963968)"]) (rule mp)
  then have f: "parse floatConverter ''0.1'' = Some (Finite (3602879701896397 / 36028797018963968))"
    unfolding tenth .
  have "\<forall>host t. \<bar>t\<bar> \<le> 8640000000000000 \<longrightarrow>
      (\<exists>str. isoDateConverter_stringify (TimeValue t) = Inr str \<and>
             isoDateConverter_parse host str = Some (TimeValue t))"
    using builtin_converters_roundtrip by (elim conjE)
  then have "\<exists>s. isoDateConverter_stringify (TimeValue 1700000000123) = Inr s \<and>
      isoDateConverter_parse (\<lambda>str. None) s = Some (TimeValue 1700000000123)"
    using valid by (elim allE [of _ "\<lambda>str. None"] allE [of _ 1700000000123]) simp
  then obtain s where s: "isoDateConverter_stringify (TimeValue 1700000000123) = Inr s"
    "isoDateConverter_parse (\<lambda>str. None) s = Some (TimeValue 1700000000123)" by (elim exE conjE)
  from s(1) str have "s = ''2023-11-14T22:13:20.123Z''" by simp
  with s(2) have d: "isoDateConverter_parse (\<lambda>str. None) ''2023-11-14T22:13:20.123Z'' =
      Some (TimeValue 1700000000123)" by simp
  from i e tenth f str d show ?thesis by (intro conjI)
qed

text \<open>
  C3 as stated fails: \<^verbatim>\<open>Infinity\<close> is a value of the integer converter's value type,
  it is stringified to \<^verbatim>\<open>"Infinity"\<close>, and that string is parsed to absent.
\<close>

theorem intConverter_loses_Infinity:
  "stringify intConverter PosInfinity = ''Infinity'' \<and>
   parse intConverter ''Infinity'' = None \<and>
   parse intConverter (stringify intConverter PosInfinity) \<noteq> Some PosInfinity"
  by (simp add: intConverter_def parseInt10_Infinity Number_isNaN_def)

section \<open>setDefaults\<close>

text \<open>
  A run of \<^verbatim>\<open>setDefaults\<close> that returns, from a world \<open>w\<close> that agrees with \<open>w0\<close> on
  the keys of the body: the calls it makes, and what the store holds afterwards.
\<close>

lemma setDefaults_char:
  assumes "distinct (map fst body)"
    and "\<forall>key\<in>fst ` set body. map_of (converters this) key \<noteq> None"
    and "\<forall>key\<in>fst ` set body. contents w (storage this) (prefix this @ key) =
           contents w0 (storage this) (prefix this @ key)"
    and "setDefaults this body w = (Inr (), w')"
  shows "calls w' = calls w @ spec_setDefaults_calls this w0 body \<and>
         takenKeys w' = takenKeys w \<and> refuses w' = refuses w \<and>
         (\<forall>s k. \<not> (s = storage this \<and> k \<in> (\<lambda>key. prefix this @ key) ` fst ` set body) \<longrightarrow>
            contents w' s k = contents w s k) \<and>
         (\<forall>(key, v)\<in>set body. contents w' (storage this) (prefix this @ key) =
            (if fst (hasItem this key w0) = Inr False
             then map_option (\<lambda>c. stringify c v) (map_of (converters this) key)
             else contents w0 (storage this) (prefix this @ key)))"
  using assms
proof (induction body arbitrary: w)
  case Nil
  then show ?case by (simp add: spec_setDefaults_calls_def)
next
  case (Cons kv body)
  obtain key v where kv: "kv = (key, v)" by (cases kv)
  from Cons.prems(2) kv obtain c where c: "map_of (converters this) key = Some c" by auto
  from Cons.prems(1) kv have d: "distinct (map fst body)" and nk: "key \<notin> fst ` set body" by auto
  from Cons.prems(2) have cv: "\<forall>key\<in>fst ` set body. map_of (converters this) key \<noteq> None" by simp
  have nk': "prefix this @ key \<notin> (\<lambda>k. prefix this @ k) ` fst ` set body"
    using nk by auto
  have same0: "fst (hasItem this key w) = fst (hasItem this key w0)"
    using Cons.prems(3) kv by (simp add: hasItem_eq)
  let ?g = "(storage this, CallGetItem (prefix this @ key))"
  let ?w1 = "w\<lparr>calls := calls w @ [?g]\<rparr>"
  have h: "hasItem this key w = (fst (hasItem this key w0), ?w1)"
    using same0 by (simp add: hasItem_eq)
  have noerr: "fst (hasItem this key w0) = Inr True \<or> fst (hasItem this key w0) = Inr False"
    using c by (auto simp: hasItem_eq split: option.splits)
  then show ?case
  proof
    assume t: "fst (hasItem this key w0) = Inr True"
    with Cons.prems(4) kv h have run: "setDefaults this body ?w1 = (Inr (), w')" by simp
    have agree: "\<forall>key\<in>fst ` set body. contents ?w1 (storage this) (prefix this @ key) =
           contents w0 (storage this) (prefix this @ key)"
      using Cons.prems(3) by simp
    from Cons.IH [OF d cv agree run] t kv Cons.prems(3) nk' show ?thesis
      by (auto simp: spec_setDefaults_calls_def)
  next
    assume f: "fst (hasItem this key w0) = Inr False"
    let ?str = "stringify c v"
    let ?s = "(storage this, CallSetItem (prefix this @ key) ?str)"
    let ?w2 = "?w1\<lparr>contents := (contents w)(storage this :=
                   (contents w (storage this))(prefix this @ key \<mapsto> ?str)),
              calls := calls w @ [?g, ?s]\<rparr>"
    from Cons.prems(4) kv h f c have
      nr: "\<not> refuses w (storage this) (contents w (storage this)) (prefix this @ key) ?str"
      by (auto simp: setItem_eq split: if_splits)
    then have si: "setItem this key v ?w1 = (Inr (), ?w2)"
      using c by (simp add: setItem_eq)
    with Cons.prems(4) kv h f have run: "setDefaults this body ?w2 = (Inr (), w')" by simp
    have agree: "\<forall>key\<in>fst ` set body. contents ?w2 (storage this) (prefix this @ key) =
           contents w0 (storage this) (prefix this @ key)"
      using Cons.prems(3) nk by auto
    from Cons.IH [OF d cv agree run] f kv c nk' show ?thesis
      by (auto simp: spec_setDefaults_calls_def)
  qed
qed

text \<open>
  Every run of \<^verbatim>\<open>setDefaults\<close>, whether it returns or a refused write ends it: the calls
  made are those of the fields visited, and only a refused write ends a run early.
\<close>

lemma spec_setDefaults_calls_Cons:
  "spec_setDefaults_calls this w ((key, v) # body) =
     ((storage this, CallGetItem (prefix this @ key)) #
       (if fst (hasItem this key w) = Inr False
        then (case map_of (converters this) key of
                None \<Rightarrow> []
              | Some c \<Rightarrow> [(storage this, CallSetItem (prefix this @ key) (stringify c v))])
        else [])) @ spec_setDefaults_calls this w body"
  by (simp add: spec_setDefaults_calls_def)

lemma setDefaults_calls_prefix:
  assumes "distinct (map fst body)"
    and "\<forall>key\<in>fst ` set body. map_of (converters this) key \<noteq> None"
    and "\<forall>key\<in>fst ` set body. contents w (storage this) (prefix this @ key) =
           contents w0 (storage this) (prefix this @ key)"
    and "setDefaults this body w = (r, w')"
  shows "\<exists>n\<le>length body. calls w' = calls w @ spec_setDefaults_calls this w0 (take n body) \<and>
           (r = Inr () \<or> r = Inl QuotaExceededError) \<and> (r = Inr () \<longrightarrow> n = length body)"
  using assms
proof (induction body arbitrary: w)
  case Nil
  then show ?case by (simp add: spec_setDefaults_calls_def)
next
  case (Cons kv body)
  obtain key v where kv: "kv = (key, v)" by (cases kv)
  from Cons.prems(2) kv obtain c where c: "map_of (converters this) key = Some c" by auto
  from Cons.prems(1) kv have d: "distinct (map fst body)" and nk: "key \<notin> fst ` set body" by auto
  from Cons.prems(2) have cv: "\<forall>key\<in>fst ` set body. map_of (converters this) key \<noteq> None" by simp
  have same0: "fst (hasItem this key w) = fst (hasItem this key w0)"
    using Cons.prems(3) kv by (simp add: hasItem_eq)
  let ?g = "(storage this, CallGetItem (prefix this @ key))"
  let ?w1 = "w\<lparr>calls := calls w @ [?g]\<rparr>"
  have h: "hasItem this key w = (fst (hasItem this key w0), ?w1)"
    using same0 by (simp add: hasItem_eq)
  have noerr: "fst (hasItem this key w0) = Inr True \<or> fst (hasItem this key w0) = Inr False"
    using c by (auto simp: hasItem_eq split: option.splits)
  then show ?case
  proof
    assume t: "fst (hasItem this key w0) = Inr True"
    with Cons.prems(4) kv h have run: "setDefaults this body ?w1 = (r, w')" by simp
    have agree: "\<forall>key\<in>fst ` set body. contents ?w1 (storage this) (prefix this @ key) =
           contents w0 (storage this) (prefix this @ key)"
      using Cons.prems(3) by simp
    from Cons.IH [OF d cv agree run] obtain n where n: "n \<le> length body"
      and cl: "calls w' = calls ?w1 @ spec_setDefaults_calls this w0 (take n body)"
      and res: "r = Inr () \<or> r = Inl QuotaExceededError" "r = Inr () \<longrightarrow> n = length body"
      by blast
    from cl t have "calls w' = calls w @ spec_setDefaults_calls this w0 (take (Suc n) (kv # body))"
      by (simp add: kv spec_setDefaults_calls_Cons)
    with n res show ?thesis by (intro exI [of _ "Suc n"]) simp
  next
    assume f: "fst (hasItem this key w0) = Inr False"
    let ?str = "stringify c v"
    let ?s = "(storage this, CallSetItem (prefix this @ key) ?str)"
    show ?thesis
    proof (cases "refuses w (storage this) (contents w (storage this)) (prefix this @ key) ?str")
      case True
      then have "setItem this key v ?w1 = (Inl QuotaExceededError, w\<lparr>calls := calls w @ [?g, ?s]\<rparr>)"
        using c by (simp add: setItem_eq)
      with Cons.prems(4) kv h f have r: "r = Inl QuotaExceededError"
        and w': "w' = w\<lparr>calls := calls w @ [?g, ?s]\<rparr>" by simp_all
      have "calls w' = calls w @ spec_setDefaults_calls this w0 (take (Suc 0) (kv # body))"
        using f c by (simp add: w' kv spec_setDefaults_calls_Cons spec_setDefaults_calls_def)
      with r show ?thesis by (intro exI [of _ "Suc 0"]) simp
    next
      case False
      let ?w2 = "?w1\<lparr>contents := (contents w)(storage this :=
                   (contents w (storage this))(prefix this @ key \<mapsto> ?str)),
              calls := calls w @ [?g, ?s]\<rparr>"
      from False have si: "setItem this key v ?w1 = (Inr (), ?w2)"
        using c by (simp add: setItem_eq)
      with Cons.prems(4) kv h f have run: "setDefaults this body ?w2 = (r, w')" by simp
      have agree: "\<forall>key\<in>fst ` set body. contents ?w2 (storage this) (prefix this @ key) =
           contents w0 (storage this) (prefix this @ key)"
        using Cons.prems(3) nk by auto
      from Cons.IH [OF d cv agree run] obtain n where n: "n \<le> length body"
        and cl: "calls w' = calls ?w2 @ spec_setDefaults_calls this w0 (take n body)"
        and res: "r = Inr () \<or> r = Inl QuotaExceededError" "r = Inr () \<longrightarrow> n = length body"
        by blast
      from cl f c have "calls w' = calls w @ spec_setDefaults_calls this w0 (take (Suc n) (kv # body))"
        by (simp add: kv spec_setDefaults_calls_Cons)
      with n res show ?thesis by (intro exI [of _ "Suc n"]) simp
    qed
  qed
qed

lemma setDefaults_append:
  "setDefaults this (pre @ post) w =
     (case setDefaults this pre w of
        (Inl e, wm) \<Rightarrow> (Inl e, wm)
      | (Inr u, wm) \<Rightarrow> setDefaults this post wm)"
proof (induction pre arbitrary: w)
  case Nil
  show ?case by simp
next
  case (Cons kv pre)
  obtain key v where kv: "kv = (key, v)" by (cases kv)
  obtain r w1 where h: "hasItem this key w = (r, w1)" by (cases "hasItem this key w")
  obtain r2 w2 where s: "setItem this key v w1 = (r2, w2)" by (cases "setItem this key v w1")
  show ?case
  proof (cases r)
    case (Inl e)
    with h kv show ?thesis by simp
  next
    case (Inr b)
    show ?thesis
    proof (cases b)
      case True
      with Inr h kv Cons.IH [of w1] show ?thesis by simp
    next
      case False
      show ?thesis
      proof (cases r2)
        case (Inl e)
        with False Inr h s kv show ?thesis by simp
      next
        case (Inr u)
        with False \<open>r = Inr b\<close> h s kv Cons.IH [of w2] show ?thesis by simp
      qed
    qed
  qed
qed

lemma setDefaults_visit:
  assumes "distinct (map fst body)"
    and "\<forall>key\<in>fst ` set body. map_of (converters this) key \<noteq> None"
    and "body = pre @ (key, v) # post"
    and "setDefaults this pre w = (Inr (), wm)"
  shows "hasItem this key wm =
           (fst (hasItem this key w), wm\<lparr>calls := calls wm @ [(storage this, CallGetItem (prefix this @ key))]\<rparr>) \<and>
         contents wm (storage this) (prefix this @ key) = contents w (storage this) (prefix this @ key)"
proof -
  from assms(1,3) have d: "distinct (map fst pre)" and nk: "key \<notin> fst ` set pre" by auto
  from assms(2,3) have cv: "\<forall>key\<in>fst ` set pre. map_of (converters this) key \<noteq> None" by simp
  have agree: "\<forall>key\<in>fst ` set pre. contents w (storage this) (prefix this @ key) =
           contents w (storage this) (prefix this @ key)" by simp
  from nk have "prefix this @ key \<notin> (\<lambda>k. prefix this @ k) ` fst ` set pre" by auto
  with setDefaults_char [OF d cv agree assms(4)]
  have "contents wm (storage this) (prefix this @ key) = contents w (storage this) (prefix this @ key)"
    by blast
  then show ?thesis by (simp add: hasItem_eq)
qed

lemma setDefaults_keeps_contents:
  "\<forall>(key, v)\<in>set body. \<exists>c. map_of (converters this) key = Some c \<and>
      (contents w (storage this) (prefix this @ key) = Some (stringify c v) \<or>
       fst (hasItem this key w) = Inr True) \<Longrightarrow>
   contents (snd (setDefaults this body w)) = contents w"
proof (induction body arbitrary: w)
  case Nil
  show ?case by simp
next
  case (Cons kv body)
  obtain key v where kv: "kv = (key, v)" by (cases kv)
  from Cons.prems kv obtain c where c: "map_of (converters this) key = Some c"
    and here: "contents w (storage this) (prefix this @ key) = Some (stringify c v) \<or>
       fst (hasItem this key w) = Inr True" by auto
  let ?g = "(storage this, CallGetItem (prefix this @ key))"
  let ?w1 = "w\<lparr>calls := calls w @ [?g]\<rparr>"
  have h: "hasItem this key w = (fst (hasItem this key w), ?w1)" by (simp add: hasItem_eq)
  have rest: "\<And>w'. contents w' = contents w \<Longrightarrow> contents (snd (setDefaults this body w')) = contents w"
  proof -
    fix w' :: world
    assume e: "contents w' = contents w"
    have "\<forall>(key, v)\<in>set body. \<exists>c. map_of (converters this) key = Some c \<and>
      (contents w' (storage this) (prefix this @ key) = Some (stringify c v) \<or>
       fst (hasItem this key w') = Inr True)"
      using Cons.prems by (simp add: e hasItem_eq)
    from Cons.IH [OF this] e show "contents (snd (setDefaults this body w')) = contents w" by simp
  qed
  have noerr: "fst (hasItem this key w) = Inr True \<or> fst (hasItem this key w) = Inr False"
    using c by (auto simp: hasItem_eq split: option.splits)
  then show ?case
  proof
    assume t: "fst (hasItem this key w) = Inr True"
    have "setDefaults this (kv # body) w = setDefaults this body ?w1"
      unfolding kv by (subst setDefaults.simps, subst h) (simp add: t)
    with rest [of ?w1] show ?thesis by simp
  next
    assume f: "fst (hasItem this key w) = Inr False"
    with here have stored: "contents w (storage this) (prefix this @ key) = Some (stringify c v)"
      by simp
    let ?str = "stringify c v"
    let ?s = "(storage this, CallSetItem (prefix this @ key) ?str)"
    let ?w2 = "w\<lparr>calls := calls w @ [?g, ?s]\<rparr>"
    show ?thesis
    proof (cases "refuses w (storage this) (contents w (storage this)) (prefix this @ key) ?str")
      case True
      then have "setItem this key v ?w1 = (Inl QuotaExceededError, ?w2)"
        using c by (simp add: setItem_eq)
      then have "setDefaults this (kv # body) w = (Inl QuotaExceededError, ?w2)"
        unfolding kv by (subst setDefaults.simps, subst h) (simp add: f)
      then show ?thesis by simp
    next
      case False
      have same: "(contents w)(storage this := (contents w (storage this))(prefix this @ key \<mapsto> ?str)) = contents w"
        using stored by (simp add: fun_upd_idem)
      from False have "setItem this key v ?w1 = (Inr (), ?w2)"
        using c by (simp add: setItem_eq same)
      then have "setDefaults this (kv # body) w = setDefaults this body ?w2"
        unfolding kv by (subst setDefaults.simps, subst h) (simp add: f)
      with rest [of ?w2] show ?thesis by simp
    qed
  qed
qed

lemma setDefaults_all_set:
  "\<forall>(key, v)\<in>set body. fst (hasItem this key w) = Inr True \<Longrightarrow>
   setDefaults this body w =
     (Inr (), w\<lparr>calls := calls w @ map (\<lambda>(key, v). (storage this, CallGetItem (prefix this @ key))) body\<rparr>)"
proof (induction body arbitrary: w)
  case Nil
  show ?case by simp
next
  case (Cons kv body)
  obtain key v where kv: "kv = (key, v)" by (cases kv)
  let ?g = "(storage this, CallGetItem (prefix this @ key))"
  let ?w1 = "w\<lparr>calls := calls w @ [?g]\<rparr>"
  from Cons.prems kv have t: "fst (hasItem this key w) = Inr True" by simp
  have h: "hasItem this key w = (fst (hasItem this key w), ?w1)" by (simp add: hasItem_eq)
  have step: "setDefaults this (kv # body) w = setDefaults this body ?w1"
    unfolding kv by (subst setDefaults.simps, subst h) (simp add: t)
  have "\<forall>(key, v)\<in>set body. fst (hasItem this key ?w1) = Inr True"
    using Cons.prems by (simp add: hasItem_eq)
  from Cons.IH [OF this] show ?case
    unfolding step by (simp add: kv)
qed

lemma setDefaults_single:
  "setDefaults this [(key, v)] w =
     (case hasItem this key w of
        (Inl e, w1) \<Rightarrow> (Inl e, w1)
      | (Inr True, w1) \<Rightarrow> (Inr (), w1)
      | (Inr False, w1) \<Rightarrow> setItem this key v w1)"
  by (simp split: prod.splits sum.splits bool.splits)

lemma flag_scenario:
  fixes fs :: "bool TypedStorage"
  assumes c: "map_of (converters fs) ''flag'' = Some booleanConverter"
    and absent: "contents w0 (storage fs) (prefix fs @ ''flag'') = None"
    and ok: "\<not> refuses w0 (storage fs) (contents w0 (storage fs)) (prefix fs @ ''flag'') ''0''"
  shows "contents (snd (setDefaults fs [(''flag'', False)] w0)) (storage fs) (prefix fs @ ''flag'') = Some ''0'' \<and>
         contents (snd (setDefaults fs [(''flag'', True)] (snd (setDefaults fs [(''flag'', False)] w0)))) =
           contents (snd (setDefaults fs [(''flag'', False)] w0)) \<and>
         calls (snd (setDefaults fs [(''flag'', True)] (snd (setDefaults fs [(''flag'', False)] w0)))) =
           calls (snd (setDefaults fs [(''flag'', False)] w0)) @ [(storage fs, CallGetItem (prefix fs @ ''flag''))]"
proof -
  let ?k = "prefix fs @ ''flag''"
  let ?w1 = "w0\<lparr>contents := (contents w0)(storage fs := (contents w0 (storage fs))(?k \<mapsto> ''0'')),
                 calls := calls w0 @ [(storage fs, CallGetItem ?k), (storage fs, CallSetItem ?k ''0'')]\<rparr>"
  have s0: "stringify booleanConverter False = ''0''" by (simp add: booleanConverter_def)
  have p0: "parse booleanConverter ''0'' = Some False" by (simp add: booleanConverter_def)
  have first: "setDefaults fs [(''flag'', False)] w0 = (Inr (), ?w1)"
    using c absent ok by (simp add: setDefaults_single hasItem_eq setItem_eq s0)
  have second: "setDefaults fs [(''flag'', True)] ?w1 =
      (Inr (), ?w1\<lparr>calls := calls ?w1 @ [(storage fs, CallGetItem ?k)]\<rparr>)"
    using c by (simp add: setDefaults_single hasItem_eq p0)
  show ?thesis unfolding first snd_conv second by simp
qed

lemma flag_first:
  "setDefaults flagStorage [(''flag'', False)] freshWorld = (Inr (), flagWorld)"
proof -
  have "fst (setDefaults flagStorage [(''flag'', False)] freshWorld) = Inr ()"
    by (simp add: setDefaults_single hasItem_eq setItem_def Storage_setItem_def flagStorage_def
        freshWorld_def)
  then show ?thesis
    unfolding flagWorld_def by (metis prod.collapse)
qed

text \<open>
  C6. Let the body's keys be fields of the schema. In every run of \<^verbatim>\<open>setDefaults\<close> the
  calls made on the store are, for every field visited, in order, the read of
  \<^verbatim>\<open>hasItem\<close> and, exactly when \<^verbatim>\<open>hasItem\<close> of the field is false, the write of the
  stringified default; the run visits every field unless the host refuses a write, which
  ends it with the host's error. Let now \<^verbatim>\<open>setDefaults\<close> return. Then \<^verbatim>\<open>hasItem\<close>
  of a field at the time the loop visits it is \<^verbatim>\<open>hasItem\<close> of the field before the
  call, since the fields before it have other keys. Afterwards a field that was not set
  holds its stringified default, a field that was set holds what it held, and every key
  that is not a key of the body holds what it held.
  In particular, with the boolean converter for \<^verbatim>\<open>flag\<close> and no entry at its key,
  \<^verbatim>\<open>setDefaults({flag: false})\<close> stores \<^verbatim>\<open>"0"\<close>, and \<^verbatim>\<open>setDefaults({flag: true})\<close> after
  it reads the key and leaves the contents as they are.
\<close>

theorem setDefaults_writes_unset_fields:
  "(distinct (map fst body) \<and> (\<forall>key\<in>fst ` set body. map_of (converters this) key \<noteq> None) \<longrightarrow>
      (\<exists>n\<le>length body.
         calls (snd (setDefaults this body w)) =
           calls w @ spec_setDefaults_calls this w (take n body) \<and>
         (fst (setDefaults this body w) = Inr () \<or>
          fst (setDefaults this body w) = Inl QuotaExceededError) \<and>
         (fst (setDefaults this body w) = Inr () \<longrightarrow> n = length body))) \<and>
   (distinct (map fst body) \<and> (\<forall>key\<in>fst ` set body. map_of (converters this) key \<noteq> None) \<and>
    setDefaults this body w = (Inr (), w') \<longrightarrow>
      calls w' = calls w @ spec_setDefaults_calls this w body \<and>
      (\<forall>pre key v post wm. body = pre @ (key, v) # post \<and> setDefaults this pre w = (Inr (), wm) \<longrightarrow>
         fst (hasItem this key wm) = fst (hasItem this key w) \<and>
         contents wm (storage this) (prefix this @ key) = contents w (storage this) (prefix this @ key) \<and>
         contents w' (storage this) (prefix this @ key) =
           (if fst (hasItem this key wm) = Inr False
            then map_option (\<lambda>c. stringify c v) (map_of (converters this) key)
            else contents w (storage this) (prefix this @ key))) \<and>
      (\<forall>s k. \<not> (s = storage this \<and> k \<in> (\<lambda>key. prefix this @ key) ` fst ` set body) \<longrightarrow>
         contents w' s k = contents w s k)) \<and>
   (\<forall>(fs :: bool TypedStorage) w0.
      map_of (converters fs) ''flag'' = Some booleanConverter \<and>
      contents w0 (storage fs) (prefix fs @ ''flag'') = None \<and>
      \<not> refuses w0 (storage fs) (contents w0 (storage fs)) (prefix fs @ ''flag'') ''0'' \<longrightarrow>
        contents (snd (setDefaults fs [(''flag'', False)] w0)) (storage fs) (prefix fs @ ''flag'') = Some ''0'' \<and>
        contents (snd (setDefaults fs [(''flag'', True)] (snd (setDefaults fs [(''flag'', False)] w0)))) =
          contents (snd (setDefaults fs [(''flag'', False)] w0)) \<and>
        calls (snd (setDefaults fs [(''flag'', True)] (snd (setDefaults fs [(''flag'', False)] w0)))) =
          calls (snd (setDefaults fs [(''flag'', False)] w0)) @ [(storage fs, CallGetItem (prefix fs @ ''flag''))])"
proof (intro conjI impI allI)
  assume a: "distinct (map fst body) \<and> (\<forall>key\<in>fst ` set body. map_of (converters this) key \<noteq> None)"
  then have d: "distinct (map fst body)"
    and cv: "\<forall>key\<in>fst ` set body. map_of (converters this) key \<noteq> None" by simp_all
  have agree: "\<forall>key\<in>fst ` set body. contents w (storage this) (prefix this @ key) =
           contents w (storage this) (prefix this @ key)" by simp
  have run: "setDefaults this body w = (fst (setDefaults this body w), snd (setDefaults this body w))"
    by simp
  from setDefaults_calls_prefix [OF d cv agree run]
  show "\<exists>n\<le>length body.
         calls (snd (setDefaults this body w)) =
           calls w @ spec_setDefaults_calls this w (take n body) \<and>
         (fst (setDefaults this body w) = Inr () \<or>
          fst (setDefaults this body w) = Inl QuotaExceededError) \<and>
         (fst (setDefaults this body w) = Inr () \<longrightarrow> n = length body)" .
next
  assume a: "distinct (map fst body) \<and> (\<forall>key\<in>fst ` set body. map_of (converters this) key \<noteq> None) \<and>
    setDefaults this body w = (Inr (), w')"
  then have d: "distinct (map fst body)"
    and cv: "\<forall>key\<in>fst ` set body. map_of (converters this) key \<noteq> None"
    and run: "setDefaults this body w = (Inr (), w')" by simp_all
  have agree: "\<forall>key\<in>fst ` set body. contents w (storage this) (prefix this @ key) =
           contents w (storage this) (prefix this @ key)" by simp
  note ch = setDefaults_char [OF d cv agree run]
  from ch show "calls w' = calls w @ spec_setDefaults_calls this w body" by blast
  {
    fix s k
    assume "\<not> (s = storage this \<and> k \<in> (\<lambda>key. prefix this @ key) ` fst ` set body)"
    with ch show "contents w' s k = contents w s k" by blast
  }
  {
    fix pre key v post wm
    assume split: "body = pre @ (key, v) # post \<and> setDefaults this pre w = (Inr (), wm)"
    then have b: "body = pre @ (key, v) # post" and m: "setDefaults this pre w = (Inr (), wm)"
      by simp_all
    note vis = setDefaults_visit [OF d cv b m]
    from vis show h: "fst (hasItem this key wm) = fst (hasItem this key w)" by simp
    from vis show "contents wm (storage this) (prefix this @ key) = contents w (storage this) (prefix this @ key)"
      by simp
    from b have "(key, v) \<in> set body" by simp
    with ch have "contents w' (storage this) (prefix this @ key) =
            (if fst (hasItem this key w) = Inr False
             then map_option (\<lambda>c. stringify c v) (map_of (converters this) key)
             else contents w (storage this) (prefix this @ key))" by blast
    then show "contents w' (storage this) (prefix this @ key) =
           (if fst (hasItem this key wm) = Inr False
            then map_option (\<lambda>c. stringify c v) (map_of (converters this) key)
            else contents w (storage this) (prefix this @ key))" by (simp add: h)
  }
next
  fix fs :: "bool TypedStorage" and w0 :: world
  assume a: "map_of (converters fs) ''flag'' = Some booleanConverter \<and>
      contents w0 (storage fs) (prefix fs @ ''flag'') = None \<and>
      \<not> refuses w0 (storage fs) (contents w0 (storage fs)) (prefix fs @ ''flag'') ''0''"
  then have c: "map_of (converters fs) ''flag'' = Some booleanConverter"
    and absent: "contents w0 (storage fs) (prefix fs @ ''flag'') = None"
    and ok: "\<not> refuses w0 (storage fs) (contents w0 (storage fs)) (prefix fs @ ''flag'') ''0''"
    by simp_all
  note sc = flag_scenario [OF c absent ok]
  from sc show "contents (snd (setDefaults fs [(''flag'', False)] w0)) (storage fs) (prefix fs @ ''flag'') = Some ''0''"
    by blast
  from sc show "contents (snd (setDefaults fs [(''flag'', True)] (snd (setDefaults fs [(''flag'', False)] w0)))) =
          contents (snd (setDefaults fs [(''flag'', False)] w0))" by blast
  from sc show "calls (snd (setDefaults fs [(''flag'', True)] (snd (setDefaults fs [(''flag'', False)] w0)))) =
          calls (snd (setDefaults fs [(''flag'', False)] w0)) @ [(storage fs, CallGetItem (prefix fs @ ''flag''))]"
    by blast
qed

text \<open>
  The theorem at scenario D: an instance with the prefix \<^verbatim>\<open>p_\<close> and the boolean field
  \<^verbatim>\<open>flag\<close>, in the fresh world.
\<close>

theorem setDefaults_writes_unset_fields_witness:
  "calls flagWorld = [(localStorage, CallGetItem ''p_flag''), (localStorage, CallSetItem ''p_flag'' ''0'')] \<and>
   contents flagWorld localStorage ''p_flag'' = Some ''0'' \<and>
   contents (snd (setDefaults flagStorage [(''flag'', True)] flagWorld)) localStorage ''p_flag'' = Some ''0''"
proof -
  let ?body = "[(''flag'', False)]"
  have d: "distinct (map fst ?body)" by simp
  have cv: "\<forall>key\<in>fst ` set ?body. map_of (converters flagStorage) key \<noteq> None"
    by (simp add: flagStorage_def)
  have ok: "\<not> refuses freshWorld (storage flagStorage) (contents freshWorld (storage flagStorage))
      (prefix flagStorage @ ''flag'') ''0''" by (simp add: freshWorld_def)
  note t = setDefaults_writes_unset_fields [of ?body flagStorage freshWorld flagWorld]
  from t d cv flag_first
  have "calls flagWorld = calls freshWorld @ spec_setDefaults_calls flagStorage freshWorld ?body"
    by blast
  then have one: "calls flagWorld =
      [(localStorage, CallGetItem ''p_flag''), (localStorage, CallSetItem ''p_flag'' ''0'')]"
    by (simp add: spec_setDefaults_calls_def hasItem_eq flagStorage_def freshWorld_def
        booleanConverter_def)
  have k: "storage flagStorage = localStorage" "prefix flagStorage @ ''flag'' = ''p_flag''"
    by (simp_all add: flagStorage_def)
  from t flagStorage_flag fresh_flag ok
  have "contents flagWorld (storage flagStorage) (prefix flagStorage @ ''flag'') = Some ''0'' \<and>
        contents (snd (setDefaults flagStorage [(''flag'', True)] flagWorld)) = contents flagWorld"
    unfolding flagWorld_def by blast
  then have two: "contents flagWorld localStorage ''p_flag'' = Some ''0'' \<and>
     contents (snd (setDefaults flagStorage [(''flag'', True)] flagWorld)) localStorage ''p_flag'' = Some ''0''"
    unfolding k by (simp del: setDefaults.simps)
  from one two show ?thesis by blast
qed

text \<open>
  C7 (amended). Let the body's keys be fields of the schema, and let a first
  \<^verbatim>\<open>setDefaults\<close> of the body return. Then a second \<^verbatim>\<open>setDefaults\<close> of the same body
  leaves the contents of the stores as the first left them. It writes nothing (it makes
  the reads of \<^verbatim>\<open>hasItem\<close> only) when every default of the body is parsed back by its
  field's converter, \<^verbatim>\<open>parse(stringify(v))\<close> not being absent. Without that, a field
  that the first call wrote is still not set, and the second call can write it again.
\<close>

theorem setDefaults_twice:
  assumes "distinct (map fst body)"
    and "\<forall>key\<in>fst ` set body. map_of (converters this) key \<noteq> None"
    and "setDefaults this body w = (Inr (), w1)"
  shows "contents (snd (setDefaults this body w1)) = contents w1 \<and>
         ((\<forall>(key, v)\<in>set body. \<forall>c. map_of (converters this) key = Some c \<longrightarrow>
              parse c (stringify c v) \<noteq> None) \<longrightarrow>
          setDefaults this body w1 =
            (Inr (), w1\<lparr>calls := calls w1 @
               map (\<lambda>(key, v). (storage this, CallGetItem (prefix this @ key))) body\<rparr>))"
proof -
  have agree: "\<forall>key\<in>fst ` set body. contents w (storage this) (prefix this @ key) =
           contents w (storage this) (prefix this @ key)" by simp
  from setDefaults_char [OF assms(1,2) agree assms(3)]
  have after: "\<forall>(key, v)\<in>set body. contents w1 (storage this) (prefix this @ key) =
            (if fst (hasItem this key w) = Inr False
             then map_option (\<lambda>c. stringify c v) (map_of (converters this) key)
             else contents w (storage this) (prefix this @ key))" by blast
  have each: "\<And>key v. (key, v) \<in> set body \<Longrightarrow>
      \<exists>c. map_of (converters this) key = Some c \<and>
        (contents w1 (storage this) (prefix this @ key) = Some (stringify c v) \<or>
         fst (hasItem this key w1) = Inr True)"
  proof -
    fix key v
    assume m: "(key, v) \<in> set body"
    with assms(2) obtain c where c: "map_of (converters this) key = Some c" by force
    from after m have a: "contents w1 (storage this) (prefix this @ key) =
            (if fst (hasItem this key w) = Inr False
             then map_option (\<lambda>c. stringify c v) (map_of (converters this) key)
             else contents w (storage this) (prefix this @ key))" by blast
    have noerr: "fst (hasItem this key w) = Inr True \<or> fst (hasItem this key w) = Inr False"
      using c by (auto simp: hasItem_eq split: option.splits)
    then have "contents w1 (storage this) (prefix this @ key) = Some (stringify c v) \<or>
         fst (hasItem this key w1) = Inr True"
    proof
      assume t: "fst (hasItem this key w) = Inr True"
      with a have "contents w1 (storage this) (prefix this @ key) =
        contents w (storage this) (prefix this @ key)" by simp
      then have "fst (hasItem this key w1) = fst (hasItem this key w)" by (simp add: hasItem_eq)
      with t show ?thesis by simp
    next
      assume "fst (hasItem this key w) = Inr False"
      with a c show ?thesis by simp
    qed
    with c show "\<exists>c. map_of (converters this) key = Some c \<and>
        (contents w1 (storage this) (prefix this @ key) = Some (stringify c v) \<or>
         fst (hasItem this key w1) = Inr True)" by blast
  qed
  then have inv: "\<forall>(key, v)\<in>set body. \<exists>c. map_of (converters this) key = Some c \<and>
        (contents w1 (storage this) (prefix this @ key) = Some (stringify c v) \<or>
         fst (hasItem this key w1) = Inr True)" by blast
  have one: "contents (snd (setDefaults this body w1)) = contents w1"
    by (rule setDefaults_keeps_contents [OF inv])
  have two: "(\<forall>(key, v)\<in>set body. \<forall>c. map_of (converters this) key = Some c \<longrightarrow>
              parse c (stringify c v) \<noteq> None) \<longrightarrow>
          setDefaults this body w1 =
            (Inr (), w1\<lparr>calls := calls w1 @
               map (\<lambda>(key, v). (storage this, CallGetItem (prefix this @ key))) body\<rparr>)"
  proof
    assume rt: "\<forall>(key, v)\<in>set body. \<forall>c. map_of (converters this) key = Some c \<longrightarrow>
              parse c (stringify c v) \<noteq> None"
    have "\<And>key v. (key, v) \<in> set body \<Longrightarrow> fst (hasItem this key w1) = Inr True"
    proof -
      fix key v
      assume m: "(key, v) \<in> set body"
      from each [OF m] obtain c where c: "map_of (converters this) key = Some c"
        and d: "contents w1 (storage this) (prefix this @ key) = Some (stringify c v) \<or>
         fst (hasItem this key w1) = Inr True" by blast
      from rt m c have "parse c (stringify c v) \<noteq> None" by blast
      with d c show "fst (hasItem this key w1) = Inr True" by (auto simp: hasItem_eq)
    qed
    then have "\<forall>(key, v)\<in>set body. fst (hasItem this key w1) = Inr True" by blast
    then show "setDefaults this body w1 =
            (Inr (), w1\<lparr>calls := calls w1 @
               map (\<lambda>(key, v). (storage this, CallGetItem (prefix this @ key))) body\<rparr>)"
      by (rule setDefaults_all_set)
  qed
  from one two show ?thesis by (rule conjI)
qed

text \<open>The theorem at scenario D's first body, called a second time.\<close>

theorem setDefaults_twice_witness:
  "setDefaults flagStorage [(''flag'', False)] flagWorld =
     (Inr (), flagWorld\<lparr>calls := calls flagWorld @ [(localStorage, CallGetItem ''p_flag'')]\<rparr>) \<and>
   contents (snd (setDefaults flagStorage [(''flag'', False)] flagWorld)) = contents flagWorld"
proof -
  let ?body = "[(''flag'', False)]"
  have d: "distinct (map fst ?body)" by simp
  have cv: "\<forall>key\<in>fst ` set ?body. map_of (converters flagStorage) key \<noteq> None"
    by (simp add: flagStorage_def)
  have rt: "\<forall>(key, v)\<in>set ?body. \<forall>c. map_of (converters flagStorage) key = Some c \<longrightarrow>
              parse c (stringify c v) \<noteq> None"
    by (auto simp: flagStorage_def booleanConverter_def)
  from setDefaults_twice [OF d cv flag_first] rt
  have "contents (snd (setDefaults flagStorage ?body flagWorld)) = contents flagWorld \<and>
        setDefaults flagStorage ?body flagWorld =
            (Inr (), flagWorld\<lparr>calls := calls flagWorld @
               map (\<lambda>(key, v). (storage flagStorage, CallGetItem (prefix flagStorage @ key))) ?body\<rparr>)"
    by blast
  then show ?thesis by (simp add: flagStorage_def del: setDefaults.simps)
qed

lemma count_first:
  "setDefaults countStorage [(''count'', PosInfinity)] freshWorld =
     (Inr (), freshWorld\<lparr>contents := (\<lambda>s. Map.empty)(localStorage := [''count'' \<mapsto> ''Infinity'']),
        calls := [(localStorage, CallGetItem ''count''), (localStorage, CallSetItem ''count'' ''Infinity'')]\<rparr>)"
  by (simp add: setDefaults_single hasItem_eq setItem_def Storage_setItem_def countStorage_def
      freshWorld_def intConverter_def)

lemma count_second:
  "setDefaults countStorage [(''count'', PosInfinity)]
     (freshWorld\<lparr>contents := (\<lambda>s. Map.empty)(localStorage := [''count'' \<mapsto> ''Infinity'']),
        calls := [(localStorage, CallGetItem ''count''), (localStorage, CallSetItem ''count'' ''Infinity'')]\<rparr>) =
     (Inr (), freshWorld\<lparr>contents := (\<lambda>s. Map.empty)(localStorage := [''count'' \<mapsto> ''Infinity'']),
        calls := [(localStorage, CallGetItem ''count''), (localStorage, CallSetItem ''count'' ''Infinity''),
                  (localStorage, CallGetItem ''count''), (localStorage, CallSetItem ''count'' ''Infinity'')]\<rparr>)"
  by (simp add: setDefaults_single hasItem_eq setItem_def Storage_setItem_def countStorage_def
      freshWorld_def intConverter_def parseInt10_Infinity Number_isNaN_def)

text \<open>
  C7 as stated fails: with the integer converter and the default \<^verbatim>\<open>Infinity\<close>, the
  first call writes \<^verbatim>\<open>"Infinity"\<close>, which the converter parses to absent, and the second
  call writes it again.
\<close>

theorem setDefaults_twice_writes_again:
  "fst (setDefaults countStorage [(''count'', PosInfinity)] freshWorld) = Inr () \<and>
   calls (snd (setDefaults countStorage [(''count'', PosInfinity)] freshWorld)) =
     [(localStorage, CallGetItem ''count''), (localStorage, CallSetItem ''count'' ''Infinity'')] \<and>
   fst (setDefaults countStorage [(''count'', PosInfinity)]
          (snd (setDefaults countStorage [(''count'', PosInfinity)] freshWorld))) = Inr () \<and>
   calls (snd (setDefaults countStorage [(''count'', PosInfinity)]
          (snd (setDefaults countStorage [(''count'', PosInfinity)] freshWorld)))) =
     [(localStorage, CallGetItem ''count''), (localStorage, CallSetItem ''count'' ''Infinity''),
      (localStorage, CallGetItem ''count''), (localStorage, CallSetItem ''count'' ''Infinity'')]"
  unfolding count_first snd_conv fst_conv count_second by simp

end
